theory Spec2Isabelle
  imports Complex_Main
begin

section \<open>Errors\<close>

text \<open>
  Every exception of the Python source is a value of \<open>error\<close>; a function that can raise
  returns \<open>error + 'a\<close>, with \<open>Inl\<close> for the exception.
\<close>

datatype error =
    IndexError
  | UnboundLocalError
  | NameError string
  | ValueError
  | ZeroDivisionError
  | OverflowError
  | MemoryError
  | InvalidCut

section \<open>steps.py: the trigger of a step\<close>

text \<open>
  \<open>Step.__init__(N, when)\<close>: \<open>None\<close> becomes \<open>"always"\<close>; a string other than the four
  accepted triggers raises \<open>ValueError\<close>.
\<close>

record step =
  step_N :: nat
  step_when :: string

definition Step_init :: "nat \<Rightarrow> string option \<Rightarrow> error + step" where
  "Step_init N when =
     (let w = (case when of None \<Rightarrow> ''always'' | Some s \<Rightarrow> s)
      in if w \<notin> set [''first'', ''always'', ''even'', ''odd'']
         then Inl ValueError
         else Inr \<lparr>step_N = N, step_when = w\<rparr>)"

text \<open>
  \<open>Step.validate(step_count)\<close>: the \<open>if\<close>/\<open>elif\<close> chain of the source, in its order.
  Python's \<open>%\<close> on integers is the floor modulus, as \<open>mod\<close> on \<open>int\<close> is.
\<close>

definition validate :: "step \<Rightarrow> int \<Rightarrow> bool" where
  "validate self step_count =
     (let when = step_when self
      in if when = ''always'' \<and> step_count > 0 then True
         else if when = ''first'' \<and> step_count = 0 then True
         else if when = ''even'' \<and> step_count mod 2 = 0 \<and> step_count > 0 then True
         else if when = ''odd'' \<and> step_count mod 2 = 1 \<and> step_count > 0 then True
         else False)"

section \<open>OTOC.py: the rowsum rule\<close>

type_synonym row = "int list"
type_synonym matrix = "int list list"

text \<open>
  \<open>g(x1, z1, x2, z2)\<close>: four independent \<open>if\<close> statements assign the local \<open>g\<close>; when none
  of them fires (a first pair that is not a pair of bits) the final \<open>return g\<close> reads an
  unbound local and raises.
\<close>

definition g :: "int \<Rightarrow> int \<Rightarrow> int \<Rightarrow> int \<Rightarrow> error + int" where
  "g x1 z1 x2 z2 =
     (let g0 = None;
          g1 = (if x1 = 0 \<and> z1 = 0 then Some 0 else g0);
          g2 = (if x1 = 0 \<and> z1 = 1 then Some (x2 * (1 - 2 * z2)) else g1);
          g3 = (if x1 = 1 \<and> z1 = 0 then Some (z2 * (2 * x2 - 1)) else g2);
          g4 = (if x1 = 1 \<and> z1 = 1 then Some (z2 - x2) else g3)
      in case g4 of None \<Rightarrow> Inl UnboundLocalError | Some v \<Rightarrow> Inr v)"

text \<open>Indexing a row: out of range raises \<open>IndexError\<close> (the indices used are never negative).\<close>

definition row_at :: "row \<Rightarrow> nat \<Rightarrow> error + int" where
  "row_at r n = (if n < length r then Inr (r ! n) else Inl IndexError)"

text \<open>
  One iteration of the loop of \<open>row_sum\<close>: the four subscripts are evaluated left to
  right, then \<open>g\<close> is called.
\<close>

definition g_at :: "row \<Rightarrow> row \<Rightarrow> nat \<Rightarrow> nat \<Rightarrow> error + int" where
  "g_at h i N j =
     (case row_at i j of Inl e \<Rightarrow> Inl e | Inr x1 \<Rightarrow>
      case row_at i (j + N) of Inl e \<Rightarrow> Inl e | Inr z1 \<Rightarrow>
      case row_at h j of Inl e \<Rightarrow> Inl e | Inr x2 \<Rightarrow>
      case row_at h (j + N) of Inl e \<Rightarrow> Inl e | Inr z2 \<Rightarrow> g x1 z1 x2 z2)"

text \<open>
  \<open>row_sum_k h i N n\<close> is the value of \<open>k\<close> after the first \<open>n\<close> iterations of
  \<open>for j in range(N): k += g(i[j], i[j+N], h[j], h[j+N])\<close>; the first iteration
  that raises ends the loop with its exception.
\<close>

fun row_sum_k :: "row \<Rightarrow> row \<Rightarrow> nat \<Rightarrow> nat \<Rightarrow> error + int" where
  "row_sum_k h i N 0 = Inr 0"
| "row_sum_k h i N (Suc n) =
     (case row_sum_k h i N n of Inl e \<Rightarrow> Inl e | Inr k \<Rightarrow>
      case g_at h i N n of Inl e \<Rightarrow> Inl e | Inr v \<Rightarrow> Inr (k + v))"

definition row_sum :: "row \<Rightarrow> row \<Rightarrow> int \<Rightarrow> int \<Rightarrow> nat \<Rightarrow> error + int" where
  "row_sum h i rh ri N =
     (case row_sum_k h i N N of Inl e \<Rightarrow> Inl e | Inr k \<Rightarrow>
      let f = 2 * rh + 2 * ri + k
      in if f mod 4 = 0 then Inr 0 else Inr 1)"

subsection \<open>The rule as the specification words it\<close>

text \<open>
  The table of the specification, by case on the bits \<open>(x1, z1)\<close>, integer-valued.
\<close>

fun g_spec :: "bool \<Rightarrow> bool \<Rightarrow> int \<Rightarrow> int \<Rightarrow> int" where
  "g_spec False False x2 z2 = 0"
| "g_spec False True x2 z2 = x2 * (1 - 2 * z2)"
| "g_spec True False x2 z2 = z2 * (2 * x2 - 1)"
| "g_spec True True x2 z2 = z2 - x2"

definition combine_spec :: "row \<Rightarrow> row \<Rightarrow> int \<Rightarrow> int \<Rightarrow> nat \<Rightarrow> int" where
  "combine_spec rowH rowI signH signI N =
     (let k = (\<Sum>j \<leftarrow> [0..<N]. g_spec (rowI ! j = 1) (rowI ! (j + N) = 1) (rowH ! j) (rowH ! (j + N)));
          f = 2 * signH + 2 * signI + k
      in if f mod 4 = 0 then 0 else 1)"

definition bits :: "row \<Rightarrow> bool" where
  "bits r = (\<forall>x \<in> set r. x = 0 \<or> x = 1)"

section \<open>OTOC.py: reduction to row echelon form\<close>

text \<open>
  A NumPy array of shape \<open>(n_rows, n_cols)\<close> is the list of its rows, all of length
  \<open>n_cols\<close>; \<open>n_rows\<close> is the length of the list and no operation of the reduction
  changes it. An array with no row has no first row to read a width from: its width is
  taken as 0, and the loop over the columns stops at once whatever the width is.
\<close>

definition shape :: "matrix \<Rightarrow> nat \<times> nat" where
  "shape A = (length A, case A of [] \<Rightarrow> 0 | r # _ \<Rightarrow> length r)"

text \<open>
  \<open>while pivot_row < n_rows and A[pivot_row, j] == 0: pivot_row += 1\<close>
\<close>

function find_pivot :: "matrix \<Rightarrow> nat \<Rightarrow> nat \<Rightarrow> nat" where
  "find_pivot A j pivot_row =
     (if pivot_row < length A \<and> A ! pivot_row ! j = 0
      then find_pivot A j (Suc pivot_row)
      else pivot_row)"
  by pat_completeness auto
termination
  by (relation "measure (\<lambda>(A, j, pivot_row). length A - pivot_row)") auto

declare find_pivot.simps [simp del]

text \<open>\<open>A[[current_row, pivot_row]] = A[[pivot_row, current_row]]\<close>\<close>

definition swap_rows :: "matrix \<Rightarrow> nat \<Rightarrow> nat \<Rightarrow> matrix" where
  "swap_rows A current_row pivot_row =
     (A[current_row := A ! pivot_row])[pivot_row := A ! current_row]"

text \<open>
  \<open>a = signs[current_row]; signs[current_row] = signs[pivot_row]; signs[pivot_row] = a\<close>:
  a sign vector shorter than the array raises \<open>IndexError\<close>.
\<close>

definition swap_signs :: "int list \<Rightarrow> nat \<Rightarrow> nat \<Rightarrow> error + int list" where
  "swap_signs signs current_row pivot_row =
     (if current_row < length signs \<and> pivot_row < length signs
      then Inr ((signs[current_row := signs ! pivot_row])[pivot_row := signs ! current_row])
      else Inl IndexError)"

definition sign_at :: "int list \<Rightarrow> nat \<Rightarrow> error + int" where
  "sign_at signs n = (if n < length signs then Inr (signs ! n) else Inl IndexError)"

text \<open>\<open>(A[i] + A[pivot_row]) % 2\<close>, elementwise on two rows of the same array.\<close>

definition xor_row :: "row \<Rightarrow> row \<Rightarrow> row" where
  "xor_row a b = map2 (\<lambda>x y. (x + y) mod 2) a b"

text \<open>
  The inner loop \<open>for i in range(current_row, n_rows)\<close> (with \<open>current_row\<close> already
  advanced past the pivot), from row \<open>i\<close> on. Row \<open>i\<close> is overwritten first; the call of
  \<open>row_sum\<close> then reads \<open>A[i]\<close> and \<open>A[pivot_row]\<close> from the updated array.
\<close>

function eliminate ::
  "nat \<Rightarrow> nat \<Rightarrow> nat \<Rightarrow> matrix \<Rightarrow> int list \<Rightarrow> nat \<Rightarrow> error + (matrix \<times> int list)" where
  "eliminate N pivot_row j A signs i =
     (if i < length A then
        (if A ! i ! j = 1 then
           (let A' = A[i := xor_row (A ! i) (A ! pivot_row)]
            in case sign_at signs i of Inl e \<Rightarrow> Inl e | Inr rh \<Rightarrow>
               (case sign_at signs pivot_row of Inl e \<Rightarrow> Inl e | Inr ri \<Rightarrow>
               (case row_sum (A' ! i) (A' ! pivot_row) rh ri N of Inl e \<Rightarrow> Inl e | Inr r \<Rightarrow>
                  eliminate N pivot_row j A' (signs[i := r]) (Suc i))))
         else eliminate N pivot_row j A signs (Suc i))
      else Inr (A, signs))"
  by pat_completeness auto
termination
  by (relation "measure (\<lambda>(N, pivot_row, j, A, signs, i). length A - i)") auto

declare eliminate.simps [simp del]

text \<open>
  The loop \<open>for j in range(n_cols)\<close> from column \<open>j\<close> on; the result carries the final
  \<open>current_row\<close> next to the array and the signs.
\<close>

function REF_loop ::
  "nat \<Rightarrow> nat \<Rightarrow> matrix \<Rightarrow> int list \<Rightarrow> nat \<Rightarrow> nat \<Rightarrow> error + (matrix \<times> int list \<times> nat)" where
  "REF_loop N n_cols A signs current_row j =
     (if j < n_cols then
        (if current_row \<ge> length A then Inr (A, signs, current_row)
         else
           (let pivot_row = find_pivot A j current_row
            in if pivot_row = length A then REF_loop N n_cols A signs current_row (Suc j)
               else
                 (case swap_signs signs current_row pivot_row of Inl e \<Rightarrow> Inl e | Inr signs1 \<Rightarrow>
                 (case eliminate N current_row j (swap_rows A current_row pivot_row) signs1
                         (Suc current_row) of
                    Inl e \<Rightarrow> Inl e
                  | Inr (A2, signs2) \<Rightarrow> REF_loop N n_cols A2 signs2 (Suc current_row) (Suc j)))))
      else Inr (A, signs, current_row))"
  by pat_completeness auto
termination
  by (relation "measure (\<lambda>(N, n_cols, A, signs, current_row, j). n_cols - j)") auto

declare REF_loop.simps [simp del]

text \<open>\<open>REF_binary(A, signs, N)\<close> returns the array and the signs; \<open>current_row\<close> is dropped.\<close>

definition REF_binary :: "matrix \<Rightarrow> int list \<Rightarrow> nat \<Rightarrow> error + (matrix \<times> int list)" where
  "REF_binary A signs N =
     (case REF_loop N (snd (shape A)) A signs 0 0 of
        Inl e \<Rightarrow> Inl e
      | Inr (A', signs', current_row) \<Rightarrow> Inr (A', signs'))"

definition REF_current_row :: "matrix \<Rightarrow> int list \<Rightarrow> nat \<Rightarrow> error + nat" where
  "REF_current_row A signs N =
     (case REF_loop N (snd (shape A)) A signs 0 0 of
        Inl e \<Rightarrow> Inl e
      | Inr (A', signs', current_row) \<Rightarrow> Inr current_row)"

subsection \<open>The reduction as the specification words it\<close>

text \<open>
  The specification's stabilizer state is a matrix "paired with" a sign vector, "permuted
  and updated in lock-step with row operations". Here each generator is a row with its
  sign, and the five steps of the specification's \<open>reduce\<close> act on the list of generators:
  scan from \<open>current_row\<close> downward for the first row with a 1 in column \<open>j\<close>; swap that
  row "(and its sign)" into position \<open>current_row\<close>; for every row below with a 1 in column
  \<open>j\<close>, replace the row by its XOR with the pivot row, then set its sign to
  \<open>combine(updated row, pivot row, its sign, the pivot's sign, N)\<close>; advance.
\<close>

type_synonym generator = "row \<times> int"

function scan_spec :: "generator list \<Rightarrow> nat \<Rightarrow> nat \<Rightarrow> nat" where
  "scan_spec gs j i =
     (if i < length gs \<and> fst (gs ! i) ! j \<noteq> 1 then scan_spec gs j (Suc i) else i)"
  by pat_completeness auto
termination
  by (relation "measure (\<lambda>(gs, j, i). length gs - i)") auto

declare scan_spec.simps [simp del]

function eliminate_spec :: "nat \<Rightarrow> nat \<Rightarrow> nat \<Rightarrow> generator list \<Rightarrow> nat \<Rightarrow> generator list" where
  "eliminate_spec N pivot j gs i =
     (if i < length gs then
        (if fst (gs ! i) ! j = 1 then
           (let updated = xor_row (fst (gs ! i)) (fst (gs ! pivot));
                sign = combine_spec updated (fst (gs ! pivot)) (snd (gs ! i)) (snd (gs ! pivot)) N
            in eliminate_spec N pivot j (gs[i := (updated, sign)]) (Suc i))
         else eliminate_spec N pivot j gs (Suc i))
      else gs)"
  by pat_completeness auto
termination
  by (relation "measure (\<lambda>(N, pivot, j, gs, i). length gs - i)") auto

declare eliminate_spec.simps [simp del]

function reduce_spec_loop :: "nat \<Rightarrow> generator list \<Rightarrow> nat \<Rightarrow> nat \<Rightarrow> generator list \<times> nat" where
  "reduce_spec_loop N gs current_row j =
     (if j < 2 * N then
        (if current_row = N then (gs, current_row)
         else
           (let found = scan_spec gs j current_row
            in if found = length gs then reduce_spec_loop N gs current_row (Suc j)
               else reduce_spec_loop N
                      (eliminate_spec N current_row j
                         ((gs[current_row := gs ! found])[found := gs ! current_row])
                         (Suc current_row))
                      (Suc current_row) (Suc j)))
      else (gs, current_row))"
  by pat_completeness auto
termination
  by (relation "measure (\<lambda>(N, gs, current_row, j). 2 * N - j)") auto

declare reduce_spec_loop.simps [simp del]

definition reduce_spec :: "nat \<Rightarrow> generator list \<Rightarrow> generator list \<times> nat" where
  "reduce_spec N gs = reduce_spec_loop N gs 0 0"

section \<open>entropy.py: the helpers the drivers call\<close>

text \<open>
  Modelled from the spec: \<open>entropy.gf2_rank\<close> is not among the sources. The
  specification's RankEngine is "GF(2) rank via the same elimination shape as 4.2 but
  without sign tracking": the two loops of the reduction with the sign vector and the
  calls of the rowsum rule left out, returning the final \<open>current_row\<close>.
\<close>

function gf2_eliminate :: "nat \<Rightarrow> nat \<Rightarrow> matrix \<Rightarrow> nat \<Rightarrow> matrix" where
  "gf2_eliminate pivot_row j A i =
     (if i < length A then
        (if A ! i ! j = 1
         then gf2_eliminate pivot_row j (A[i := xor_row (A ! i) (A ! pivot_row)]) (Suc i)
         else gf2_eliminate pivot_row j A (Suc i))
      else A)"
  by pat_completeness auto
termination
  by (relation "measure (\<lambda>(pivot_row, j, A, i). length A - i)") auto

declare gf2_eliminate.simps [simp del]

function gf2_loop :: "nat \<Rightarrow> matrix \<Rightarrow> nat \<Rightarrow> nat \<Rightarrow> matrix \<times> nat" where
  "gf2_loop n_cols A current_row j =
     (if j < n_cols then
        (if current_row \<ge> length A then (A, current_row)
         else
           (let pivot_row = find_pivot A j current_row
            in if pivot_row = length A then gf2_loop n_cols A current_row (Suc j)
               else gf2_loop n_cols
                      (gf2_eliminate current_row j (swap_rows A current_row pivot_row)
                         (Suc current_row))
                      (Suc current_row) (Suc j)))
      else (A, current_row))"
  by pat_completeness auto
termination
  by (relation "measure (\<lambda>(n_cols, A, current_row, j). n_cols - j)") auto

declare gf2_loop.simps [simp del]

definition gf2_rank :: "matrix \<Rightarrow> nat" where
  "gf2_rank A = snd (gf2_loop (snd (shape A)) A 0 0)"

text \<open>
  Modelled from the spec: \<open>entropy.rows\<close> is not among the sources. The RankEngine takes
  "an arbitrary binary matrix"; \<open>rows\<close> hands the array over as the list of its rows.
\<close>

definition rows :: "matrix \<Rightarrow> matrix" where
  "rows b = b"

text \<open>
  Modelled from the spec: \<open>entropy.getCutStabilizers\<close> is not among the sources. The
  specification's CutSpec is "an integer cut with 0 \<le> cut \<le> N identifying a bipartition
  at qubit index N-cut", used "to select the trailing cut qubits' columns", and its
  InvalidCut is "cut outside [0, N]: fail fast with explicit error; no silent clamping".
  \<open>N\<close> is the number of rows of the array; a qubit's columns are its X column and its
  Z column.
\<close>

definition getCutStabilizers :: "matrix \<Rightarrow> int \<Rightarrow> error + matrix" where
  "getCutStabilizers binaryMatrix cut_q =
     (let N = length binaryMatrix
      in if cut_q < 0 \<or> cut_q > int N then Inl InvalidCut
         else Inr (map (\<lambda>r. take (nat cut_q) (drop (N - nat cut_q) r)
                            @ take (nat cut_q) (drop (2 * N - nat cut_q) r)) binaryMatrix))"

section \<open>circuits.py: the entropy computation and runFS1\<close>

text \<open>
  The entropy lines shared by the drivers, from the binary matrix \<open>mat\<close> of the sampled
  stabilisers on:
  \<open>b2 = getCutStabilizers(mat, cut); b3 = rows(b2); SA = gf2_rank(b3.copy()) - cut\<close>.
\<close>

definition entropy_SA :: "matrix \<Rightarrow> int \<Rightarrow> error + int" where
  "entropy_SA mat cut_q =
     (case getCutStabilizers mat cut_q of
        Inl e \<Rightarrow> Inl e
      | Inr b2 \<Rightarrow> Inr (int (gf2_rank (rows b2)) - cut_q))"

text \<open>
  What \<open>runFS1\<close> meets outside the sources: the rounding of an exact quotient to the
  nearest double (exponent unbounded; Python raises \<open>OverflowError\<close> when the result is
  beyond the doubles), the number of float64 entries an allocation of the machine can
  hold, and the calls into \<open>gates\<close> and \<open>entropy\<close>, which are not among the sources:
  \<open>FS1Step N k i\<close> is how \<open>gates.FS1Step(N, s)\<close> ends at repetition \<open>k\<close> and timestep
  \<open>i\<close> (it returns or raises), \<open>SA_lines N cut k i\<close> how the entropy lines 39 to 43 end
  there (with the value of \<open>SA\<close>, or raising).
\<close>

record outside =
  float_of :: "real \<Rightarrow> real"
  mem_limit :: nat
  FS1Step :: "nat \<Rightarrow> nat \<Rightarrow> nat \<Rightarrow> error + unit"
  SA_lines :: "nat \<Rightarrow> int \<Rightarrow> nat \<Rightarrow> nat \<Rightarrow> error + int"

text \<open>
  \<open>int(T/res)\<close>: true division of two integers (the exact quotient rounded to a double),
  then truncation towards zero; division by zero raises.
\<close>

definition int_div :: "(real \<Rightarrow> real) \<Rightarrow> int \<Rightarrow> int \<Rightarrow> error + int" where
  "int_div fl a b =
     (if b = 0 then Inl ZeroDivisionError
      else (let q = fl (real_of_int a / real_of_int b)
            in if \<bar>q\<bar> \<ge> 2 ^ 1024 then Inl OverflowError
               else Inr (if 0 \<le> q then \<lfloor>q\<rfloor> else \<lceil>q\<rceil>)))"

text \<open>
  \<open>np.zeros(n)\<close>, an array of \<open>n\<close> float64 zeros: a negative \<open>n\<close> raises \<open>ValueError\<close>,
  and so does an \<open>n\<close> whose \<open>8 n\<close> bytes pass the largest array size \<open>2^63 - 1\<close>; an \<open>n\<close>
  beyond what the machine can hold raises \<open>MemoryError\<close>.
\<close>

definition np_zeros :: "nat \<Rightarrow> int \<Rightarrow> error + real list" where
  "np_zeros mem n =
     (if n < 0 then Inl ValueError
      else if 8 * n \<ge> 2 ^ 63 then Inl ValueError
      else if nat n > mem then Inl MemoryError
      else Inr (replicate (nat n) 0))"

text \<open>
  The body of the inner loop of \<open>runFS1\<close> at repetition \<open>k\<close> and timestep \<open>i\<close>: the gate
  step, then, when \<open>i % res == 0\<close>, the entropy lines; after them \<open>j = int(i/l)\<close> reads
  the name \<open>l\<close>, which neither the function nor the module binds.
\<close>

definition FS1_body ::
  "outside \<Rightarrow> nat \<Rightarrow> int \<Rightarrow> int \<Rightarrow> nat \<Rightarrow> nat \<Rightarrow> real list \<Rightarrow> error + real list" where
  "FS1_body out N res cut_q k i v =
     (case FS1Step out N k i of
        Inl e \<Rightarrow> Inl e
      | Inr s \<Rightarrow>
          if int i mod res = 0
          then (case SA_lines out N cut_q k i of
                  Inl e \<Rightarrow> Inl e
                | Inr SA \<Rightarrow> Inl (NameError ''l''))
          else Inr v)"

text \<open>The first \<open>n\<close> iterations of \<open>for i in range(0, T)\<close>.\<close>

fun FS1_inner ::
  "outside \<Rightarrow> nat \<Rightarrow> int \<Rightarrow> int \<Rightarrow> nat \<Rightarrow> nat \<Rightarrow> real list \<Rightarrow> error + real list" where
  "FS1_inner out N res cut_q k 0 v = Inr v"
| "FS1_inner out N res cut_q k (Suc n) v =
     (case FS1_inner out N res cut_q k n v of
        Inl e \<Rightarrow> Inl e
      | Inr v' \<Rightarrow> FS1_body out N res cut_q k n v')"

text \<open>The first \<open>m\<close> iterations of \<open>for k in range(0, rep)\<close>.\<close>

fun FS1_outer ::
  "outside \<Rightarrow> nat \<Rightarrow> int \<Rightarrow> int \<Rightarrow> int \<Rightarrow> nat \<Rightarrow> real list \<Rightarrow> error + real list" where
  "FS1_outer out N T res cut_q 0 v = Inr v"
| "FS1_outer out N T res cut_q (Suc m) v =
     (case FS1_outer out N T res cut_q m v of
        Inl e \<Rightarrow> Inl e
      | Inr v' \<Rightarrow> FS1_inner out N res cut_q m (nat T) v')"

text \<open>
  \<open>runFS1(N, T, rep, res, cut)\<close>: the size \<open>T2\<close> and the two arrays of lines 29 to 31,
  the loops, then \<open>w[i] = i*res\<close>. A \<open>range\<close> with a bound below 1 is empty.
\<close>

definition runFS1 ::
  "outside \<Rightarrow> nat \<Rightarrow> int \<Rightarrow> int \<Rightarrow> int \<Rightarrow> int \<Rightarrow> error + (real list \<times> real list)" where
  "runFS1 out N T rep res cut_q =
     (case int_div (float_of out) T res of Inl e \<Rightarrow> Inl e | Inr T2 \<Rightarrow>
     (case np_zeros (mem_limit out) T2 of Inl e \<Rightarrow> Inl e | Inr v \<Rightarrow>
     (case np_zeros (mem_limit out) T2 of Inl e \<Rightarrow> Inl e | Inr w \<Rightarrow>
     (case FS1_outer out N T res cut_q (nat rep) v of
        Inl e \<Rightarrow> Inl e
      | Inr v' \<Rightarrow> Inr (v', map (\<lambda>i. real_of_int (int i * res)) [0..<nat T2])))))"

section \<open>OTOC.py: one sample of the correlator\<close>

text \<open>
  \<open>xs(binMat)\<close>: the first \<open>N\<close> columns, \<open>N\<close> the number of rows. \<open>small_zs\<close>: the rows
  from \<open>N - size2\<close> on, columns from \<open>N\<close> on, copied into \<open>np.zeros((size2, N))\<close>, which
  raises \<open>ValueError\<close> for a negative \<open>size2\<close> and for a slice of another shape. Both
  are modelled for the arrays the drivers pass, with at least \<open>N\<close> columns and \<open>N\<close> rows:
  there the copies fit exactly, and NumPy's broadcasting of a slice with a single row or
  column into a larger array does not occur.
\<close>

definition xs :: "matrix \<Rightarrow> matrix" where
  "xs binMat = (let N = length binMat in map (take N) binMat)"

definition small_zs :: "matrix \<Rightarrow> int \<Rightarrow> nat \<Rightarrow> error + matrix" where
  "small_zs binMat size2 N =
     (if size2 < 0 then Inl ValueError
      else (let sl = map (drop N) (drop (nat (int N - size2)) binMat)
            in if length sl = nat size2 \<and> list_all (\<lambda>r. length r = N) sl
               then Inr sl else Inl ValueError))"

text \<open>
  \<open>Ans = 0; for k in range(size2): if signs4[k] == 1: Ans = 1\<close>, the first \<open>n\<close>
  iterations.
\<close>

fun Ans_loop :: "int list \<Rightarrow> nat \<Rightarrow> error + int" where
  "Ans_loop signs4 0 = Inr 0"
| "Ans_loop signs4 (Suc k) =
     (case Ans_loop signs4 k of
        Inl e \<Rightarrow> Inl e
      | Inr Ans \<Rightarrow>
          (case sign_at signs4 k of
             Inl e \<Rightarrow> Inl e
           | Inr s \<Rightarrow> Inr (if s = 1 then 1 else Ans)))"

text \<open>
  The lines of \<open>OTOC_FS3_Np\<close> from the encoded matrix \<open>bMat\<close> and signs \<open>signs3\<close> to the
  contribution of the sample: 0 when \<open>Ans == 1\<close>, else \<open>2**(-(rank)/2)\<close>, a float that
  the model takes as the real number it stands for. The driver adds the contribution
  divided by \<open>rep\<close> to its slot of \<open>v\<close>.
\<close>

definition OTOC_sample :: "matrix \<Rightarrow> int list \<Rightarrow> nat \<Rightarrow> error + real" where
  "OTOC_sample bMat signs3 N =
     (case REF_binary bMat signs3 N of Inl e \<Rightarrow> Inl e | Inr (REF, signs3') \<Rightarrow>
        (let xs1 = xs REF;
             rank = gf2_rank (rows xs1);
             size2 = int N - int rank
         in case small_zs REF size2 N of Inl e \<Rightarrow> Inl e | Inr small \<Rightarrow>
            (let signs4 = drop rank signs3'
             in case Ans_loop signs4 (nat size2) of Inl e \<Rightarrow> Inl e | Inr Ans \<Rightarrow>
                Inr (if Ans = 1 then 0 else 2 powr (- real rank / 2)))))"

section \<open>Predicates of the statements\<close>

text \<open>
  A binary array of width \<open>m\<close>; the index of the first nonzero entry of a row (its length
  for a zero row); echelon form with \<open>r\<close> pivot rows: the leading entries of the first
  \<open>r\<close> rows move strictly to the right, the rows below are zero.
\<close>

definition mat_ok :: "nat \<Rightarrow> matrix \<Rightarrow> bool" where
  "mat_ok m A = list_all (\<lambda>r. length r = m \<and> bits r) A"

definition lead :: "row \<Rightarrow> nat" where
  "lead r = length (takeWhile (\<lambda>x. x = 0) r)"

definition echelon :: "matrix \<Rightarrow> nat \<Rightarrow> bool" where
  "echelon A r =
     (r \<le> length A
      \<and> sorted_wrt (<) (map lead (take r A))
      \<and> list_all (\<lambda>row. lead row < length row) (take r A)
      \<and> list_all (\<lambda>row. lead row = length row) (drop r A))"

text \<open>
  The inputs of the reduction: an \<open>N \<times> 2N\<close> binary matrix with \<open>N\<close> signs. A valid
  stabilizer state has, beyond that, independent generators: its rank is \<open>N\<close>.
\<close>

definition state_ok :: "matrix \<Rightarrow> int list \<Rightarrow> nat \<Rightarrow> bool" where
  "state_ok A signs N = (length A = N \<and> mat_ok (2 * N) A \<and> length signs = N)"

definition valid_state :: "matrix \<Rightarrow> nat \<Rightarrow> bool" where
  "valid_state mat N = (length mat = N \<and> mat_ok (2 * N) mat \<and> gf2_rank mat = N)"

text \<open>
  An example for the statements about the drivers: the stabilisers \<open>ZII, IZI, IIZ\<close> of
  three qubits, sampled at every repetition and timestep.
\<close>

definition stab_Z3 :: "nat \<Rightarrow> nat \<Rightarrow> matrix" where
  "stab_Z3 k i = [[0, 0, 0, 1, 0, 0], [0, 0, 0, 0, 1, 0], [0, 0, 0, 0, 0, 1]]"

text \<open>
  With it, an example of the outside of \<open>runFS1\<close>: quotients that are doubles already (as
  \<open>4/1\<close>, \<open>4/2\<close> and \<open>2^63/1\<close> are), which the rounding leaves as they are, room for
  \<open>2^30\<close> entries, a gate step that returns, and the entropy lines as modelled above on the
  sampled stabilisers.
\<close>

definition outside_Z3 :: outside where
  "outside_Z3 =
     \<lparr>float_of = id, mem_limit = 1073741824,
      FS1Step = (\<lambda>N k i. Inr ()),
      SA_lines = (\<lambda>N cut_q k i. entropy_SA (stab_Z3 k i) cut_q)\<rparr>"

section \<open>Properties\<close>

subsection \<open>The rowsum rule\<close>

lemma g_bits:
  assumes "x1 = 0 \<or> x1 = 1" "z1 = 0 \<or> z1 = 1"
  shows "g x1 z1 x2 z2 = Inr (g_spec (x1 = 1) (z1 = 1) x2 z2)"
  using assms by (auto simp: g_def)

lemma bits_nth: "bits r \<Longrightarrow> n < length r \<Longrightarrow> r ! n = 0 \<or> r ! n = 1"
  by (simp add: bits_def)

lemma g_at_bits:
  assumes "bits i" "j + N < length i" "j + N < length h"
  shows "g_at h i N j = Inr (g_spec (i ! j = 1) (i ! (j + N) = 1) (h ! j) (h ! (j + N)))"
proof -
  have "i ! j = 0 \<or> i ! j = 1" "i ! (j + N) = 0 \<or> i ! (j + N) = 1"
    using assms by (simp_all add: bits_nth)
  then show ?thesis
    using assms by (simp add: g_at_def row_at_def g_bits)
qed

lemma row_sum_k_bits:
  assumes "bits i" "2 * N \<le> length i" "2 * N \<le> length h" "n \<le> N"
  shows "row_sum_k h i N n =
         Inr (\<Sum>j \<leftarrow> [0..<n]. g_spec (i ! j = 1) (i ! (j + N) = 1) (h ! j) (h ! (j + N)))"
  using assms(4)
proof (induction n)
  case 0
  then show ?case by simp
next
  case (Suc n)
  then have "n + N < length i" "n + N < length h"
    using assms(2,3) by simp_all
  with Suc assms(1) show ?case
    by (simp add: g_at_bits)
qed

text \<open>
  C1. For rows H and I of width 2N, row I a row of bits, \<open>row_sum\<close> returns the sign the
  specification's rule gives: \<open>k\<close> is the sum over the qubits \<open>j = 0..N-1\<close> of
  \<open>g(rowI[j], rowI[j+N], rowH[j], rowH[j+N])\<close> with \<open>g\<close> the four-case table,
  \<open>f = 2 signH + 2 signI + k\<close>, and the sign is 0 if \<open>f mod 4 = 0\<close> and 1 otherwise.
\<close>

theorem row_sum_is_combine_spec:
  assumes "length rowH = 2 * N" "length rowI = 2 * N" "bits rowI"
  shows "row_sum rowH rowI signH signI N = Inr (combine_spec rowH rowI signH signI N)"
  using assms by (simp add: row_sum_def combine_spec_def row_sum_k_bits Let_def)

theorem row_sum_is_combine_spec_witness:
  "length [1, 1, 0, 0 :: int] = 2 * 2 \<and> length [0, 1, 1, 1 :: int] = 2 * 2 \<and> bits [0, 1, 1, 1]
   \<and> row_sum [1, 1, 0, 0] [0, 1, 1, 1] 1 1 2 = Inr 0
   \<and> combine_spec [1, 1, 0, 0] [0, 1, 1, 1] 1 1 2 = 0"
proof -
  have c: "combine_spec [1, 1, 0, 0] [0, 1, 1, 1] 1 1 2 = 0"
    by (simp add: combine_spec_def upt_rec)
  have h: "length [1, 1, 0, 0 :: int] = 2 * 2" "length [0, 1, 1, 1 :: int] = 2 * 2"
    "bits [0, 1, 1, 1]"
    by (simp_all add: bits_def)
  show ?thesis
    using row_sum_is_combine_spec [OF h, of 1 1] c h by simp
qed

subsection \<open>Rows, leading entries and the pivot search\<close>

lemma mat_ok_nth: "mat_ok m A \<Longrightarrow> i < length A \<Longrightarrow> length (A ! i) = m \<and> bits (A ! i)"
  by (simp add: mat_ok_def list_all_length)

lemma mat_ok_entry:
  "mat_ok m A \<Longrightarrow> i < length A \<Longrightarrow> j < m \<Longrightarrow> A ! i ! j = 0 \<or> A ! i ! j = 1"
  using mat_ok_nth [of m A i] bits_nth [of "A ! i" j] by simp

lemma mat_ok_update:
  "mat_ok m A \<Longrightarrow> length r = m \<Longrightarrow> bits r \<Longrightarrow> mat_ok m (A[i := r])"
  unfolding mat_ok_def list_all_iff using set_update_subset_insert [of A i r] by auto

lemma length_xor_row: "length a = m \<Longrightarrow> length b = m \<Longrightarrow> length (xor_row a b) = m"
  by (simp add: xor_row_def)

lemma nth_xor_row:
  "k < length a \<Longrightarrow> k < length b \<Longrightarrow> xor_row a b ! k = (a ! k + b ! k) mod 2"
  by (simp add: xor_row_def)

lemma bits_xor_row: "bits (xor_row a b)"
  by (auto simp: bits_def xor_row_def set_zip)

lemma lead_le: "lead r \<le> length r"
  by (simp add: lead_def length_takeWhile_le)

lemma lead_zero_before: "k < lead r \<Longrightarrow> r ! k = 0"
  unfolding lead_def using nth_mem takeWhile_nth set_takeWhileD
  by (metis (mono_tags, lifting))

lemma lead_nonzero: "lead r < length r \<Longrightarrow> r ! lead r \<noteq> 0"
  unfolding lead_def using nth_length_takeWhile by blast

lemma lead_ge: "j \<le> length r \<Longrightarrow> \<forall>k<j. r ! k = 0 \<Longrightarrow> j \<le> lead r"
  using lead_nonzero [of r] lead_le [of r]
  by (metis le_neq_implies_less not_le_imp_less order.strict_trans2)

lemma lead_eq: "j < length r \<Longrightarrow> \<forall>k<j. r ! k = 0 \<Longrightarrow> r ! j \<noteq> 0 \<Longrightarrow> lead r = j"
  using lead_ge [of j r] lead_zero_before [of j r] by force

lemma find_pivot_ge: "pivot_row \<le> find_pivot A j pivot_row"
  by (induction A j pivot_row rule: find_pivot.induct) (metis Suc_leD find_pivot.simps order_refl)

lemma find_pivot_le: "pivot_row \<le> length A \<Longrightarrow> find_pivot A j pivot_row \<le> length A"
  by (induction A j pivot_row rule: find_pivot.induct) (metis Suc_leI find_pivot.simps)

lemma find_pivot_nonzero:
  "find_pivot A j pivot_row < length A \<Longrightarrow> A ! find_pivot A j pivot_row ! j \<noteq> 0"
  by (induction A j pivot_row rule: find_pivot.induct) (metis find_pivot.simps)

lemma find_pivot_zero_before:
  "pivot_row \<le> k \<Longrightarrow> k < find_pivot A j pivot_row \<Longrightarrow> A ! k ! j = 0"
proof (induction A j pivot_row rule: find_pivot.induct)
  case (1 A j pivot_row)
  show ?case
  proof (cases "pivot_row < length A \<and> A ! pivot_row ! j = 0")
    case True
    then have eq: "find_pivot A j pivot_row = find_pivot A j (Suc pivot_row)"
      by (subst find_pivot.simps) simp
    show ?thesis
    proof (cases "k = pivot_row")
      case True
      with \<open>pivot_row < length A \<and> A ! pivot_row ! j = 0\<close> show ?thesis by simp
    next
      case False
      with "1.prems" have "Suc pivot_row \<le> k" by simp
      with "1.IH" [OF True] "1.prems" eq show ?thesis by simp
    qed
  next
    case False
    then have "find_pivot A j pivot_row = pivot_row"
      by (subst find_pivot.simps) auto
    with "1.prems" show ?thesis by simp
  qed
qed

lemma find_pivot_here:
  "pivot_row < length A \<Longrightarrow> A ! pivot_row ! j \<noteq> 0 \<Longrightarrow> find_pivot A j pivot_row = pivot_row"
  by (subst find_pivot.simps) simp

lemma find_pivot_none:
  "pivot_row \<le> length A \<Longrightarrow> \<forall>k. pivot_row \<le> k \<and> k < length A \<longrightarrow> A ! k ! j = 0
   \<Longrightarrow> find_pivot A j pivot_row = length A"
  using find_pivot_nonzero [of A j pivot_row] find_pivot_ge [of pivot_row A j]
    find_pivot_le [of pivot_row A j]
  by (metis le_neq_implies_less)

lemma gf2_eliminate_length: "length (gf2_eliminate p j A i) = length A"
  by (induction p j A i rule: gf2_eliminate.induct) (subst gf2_eliminate.simps, simp)

lemma gf2_eliminate_nth:
  "p < i0 \<Longrightarrow> i < length A \<Longrightarrow>
   gf2_eliminate p j A i0 ! i =
     (if i0 \<le> i \<and> A ! i ! j = 1 then xor_row (A ! i) (A ! p) else A ! i)"
proof (induction p j A i0 rule: gf2_eliminate.induct)
  case (1 p j A i0)
  show ?case
  proof (cases "i0 < length A")
    case False
    then show ?thesis using "1.prems" by (subst gf2_eliminate.simps) simp
  next
    case lt: True
    show ?thesis
    proof (cases "A ! i0 ! j = 1")
      case True
      let ?A1 = "A[i0 := xor_row (A ! i0) (A ! p)]"
      have eq: "gf2_eliminate p j A i0 = gf2_eliminate p j ?A1 (Suc i0)"
        using lt True by (subst gf2_eliminate.simps) simp
      have ih: "gf2_eliminate p j ?A1 (Suc i0) ! i =
          (if Suc i0 \<le> i \<and> ?A1 ! i ! j = 1 then xor_row (?A1 ! i) (?A1 ! p) else ?A1 ! i)"
        using "1.IH"(1) [OF lt True] "1.prems" by simp
      show ?thesis
        using "1.prems" lt True unfolding eq ih
        by (cases "i = i0") (simp_all add: nth_list_update)
    next
      case False
      have eq: "gf2_eliminate p j A i0 = gf2_eliminate p j A (Suc i0)"
        using lt False by (subst gf2_eliminate.simps) simp
      have ih: "gf2_eliminate p j A (Suc i0) ! i =
          (if Suc i0 \<le> i \<and> A ! i ! j = 1 then xor_row (A ! i) (A ! p) else A ! i)"
        using "1.IH"(2) [OF lt False] "1.prems" by simp
      show ?thesis
        using "1.prems" lt False unfolding eq ih
        by (cases "i = i0") auto
    qed
  qed
qed

subsection \<open>The elimination loop\<close>

lemma row_sum_ok:
  assumes "bits i" "2 * N \<le> length i" "2 * N \<le> length h"
  shows "\<exists>v. row_sum h i rh ri N = Inr v \<and> (v = 0 \<or> v = 1)"
  using assms by (simp add: row_sum_def row_sum_k_bits Let_def)

lemma eliminate_mat:
  "eliminate N p j A signs i0 = Inr (A', signs') \<Longrightarrow> A' = gf2_eliminate p j A i0"
proof (induction N p j A signs i0 rule: eliminate.induct)
  case (1 N p j A signs i0)
  show ?case
  proof (cases "i0 < length A")
    case False
    then show ?thesis
      using "1.prems" by (subst gf2_eliminate.simps, subst (asm) eliminate.simps) simp
  next
    case lt: True
    show ?thesis
    proof (cases "A ! i0 ! j = 1")
      case True
      let ?A1 = "A[i0 := xor_row (A ! i0) (A ! p)]"
      from "1.prems" lt True obtain rh ri r where
        s: "sign_at signs i0 = Inr rh" "sign_at signs p = Inr ri"
           "row_sum (?A1 ! i0) (?A1 ! p) rh ri N = Inr r"
        and rec: "eliminate N p j ?A1 (signs[i0 := r]) (Suc i0) = Inr (A', signs')"
        by (subst (asm) eliminate.simps) (auto simp: Let_def split: sum.splits)
      have "A' = gf2_eliminate p j ?A1 (Suc i0)"
        using "1.IH"(1) [OF lt True refl s rec] .
      then show ?thesis
        using lt True by (subst gf2_eliminate.simps) simp
    next
      case False
      from "1.prems" lt False have rec: "eliminate N p j A signs (Suc i0) = Inr (A', signs')"
        by (subst (asm) eliminate.simps) simp
      have "A' = gf2_eliminate p j A (Suc i0)"
        using "1.IH"(2) [OF lt False rec] .
      then show ?thesis
        using lt False by (subst gf2_eliminate.simps) simp
    qed
  qed
qed

lemma eliminate_signs:
  "eliminate N p j A signs i0 = Inr (A', signs') \<Longrightarrow>
   length signs' = length signs \<and>
   (\<forall>i. \<not> (i0 \<le> i \<and> i < length A \<and> A ! i ! j = 1) \<longrightarrow> signs' ! i = signs ! i) \<and>
   (p < i0 \<longrightarrow> (\<forall>i. i0 \<le> i \<and> i < length A \<and> A ! i ! j = 1 \<longrightarrow>
       row_sum (A' ! i) (A ! p) (signs ! i) (signs ! p) N = Inr (signs' ! i)))"
proof (induction N p j A signs i0 arbitrary: rule: eliminate.induct)
  case (1 N p j A signs i0)
  show ?case
  proof (cases "i0 < length A")
    case False
    then show ?thesis
      using "1.prems" by (subst (asm) eliminate.simps) auto
  next
    case lt: True
    show ?thesis
    proof (cases "A ! i0 ! j = 1")
      case True
      let ?A1 = "A[i0 := xor_row (A ! i0) (A ! p)]"
      from "1.prems" lt True obtain rh ri r where
        s: "sign_at signs i0 = Inr rh" "sign_at signs p = Inr ri"
           "row_sum (?A1 ! i0) (?A1 ! p) rh ri N = Inr r"
        and rec: "eliminate N p j ?A1 (signs[i0 := r]) (Suc i0) = Inr (A', signs')"
        by (subst (asm) eliminate.simps) (auto simp: Let_def split: sum.splits)
      let ?s1 = "signs[i0 := r]"
      have ih: "length signs' = length ?s1"
        "\<And>i. \<not> (Suc i0 \<le> i \<and> i < length ?A1 \<and> ?A1 ! i ! j = 1) \<Longrightarrow> signs' ! i = ?s1 ! i"
        "\<And>i. p < Suc i0 \<Longrightarrow> Suc i0 \<le> i \<Longrightarrow> i < length ?A1 \<Longrightarrow> ?A1 ! i ! j = 1 \<Longrightarrow>
           row_sum (A' ! i) (?A1 ! p) (?s1 ! i) (?s1 ! p) N = Inr (signs' ! i)"
        using "1.IH"(1) [OF lt True refl s rec] by blast+
      have rh: "i0 < length signs" "rh = signs ! i0" and ri: "p < length signs" "ri = signs ! p"
        using s(1,2) by (auto simp: sign_at_def split: if_splits)
      have A': "A' = gf2_eliminate p j ?A1 (Suc i0)"
        using eliminate_mat [OF rec] .
      have c1: "length signs' = length signs" using ih(1) by simp
      have c2: "signs' ! i = signs ! i" if "\<not> (i0 \<le> i \<and> i < length A \<and> A ! i ! j = 1)" for i
      proof -
        have "i \<noteq> i0" using that lt True by auto
        then have "\<not> (Suc i0 \<le> i \<and> i < length ?A1 \<and> ?A1 ! i ! j = 1)"
          using that by (auto simp: nth_list_update)
        from ih(2) [OF this] \<open>i \<noteq> i0\<close> show ?thesis by simp
      qed
      have c3: "row_sum (A' ! i) (A ! p) (signs ! i) (signs ! p) N = Inr (signs' ! i)"
        if "p < i0" "i0 \<le> i" "i < length A" "A ! i ! j = 1" for i
      proof (cases "i = i0")
        case True
        have "signs' ! i0 = ?s1 ! i0" by (rule ih(2)) simp
        then have a: "signs' ! i0 = r" using rh by simp
        have b: "A' ! i0 = ?A1 ! i0"
          unfolding A' using gf2_eliminate_nth [of p "Suc i0" i0 ?A1 j] that lt by simp
        show ?thesis
          using s(3) a b that True rh ri by (simp add: nth_list_update)
      next
        case False
        with that have "Suc i0 \<le> i" "i < length ?A1" "?A1 ! i ! j = 1" "p < Suc i0"
          by (simp_all add: nth_list_update)
        from ih(3) [OF this(4,1,2,3)] False that show ?thesis
          by (simp add: nth_list_update)
      qed
      show ?thesis using c1 c2 c3 by blast
    next
      case False
      from "1.prems" lt False have rec: "eliminate N p j A signs (Suc i0) = Inr (A', signs')"
        by (subst (asm) eliminate.simps) simp
      have ih: "length signs' = length signs"
        "\<And>i. \<not> (Suc i0 \<le> i \<and> i < length A \<and> A ! i ! j = 1) \<Longrightarrow> signs' ! i = signs ! i"
        "\<And>i. p < Suc i0 \<Longrightarrow> Suc i0 \<le> i \<Longrightarrow> i < length A \<Longrightarrow> A ! i ! j = 1 \<Longrightarrow>
           row_sum (A' ! i) (A ! p) (signs ! i) (signs ! p) N = Inr (signs' ! i)"
        using "1.IH"(2) [OF lt False rec] by blast+
      have c2: "signs' ! i = signs ! i" if "\<not> (i0 \<le> i \<and> i < length A \<and> A ! i ! j = 1)" for i
        using ih(2) [of i] that by auto
      have c3: "row_sum (A' ! i) (A ! p) (signs ! i) (signs ! p) N = Inr (signs' ! i)"
        if "p < i0" "i0 \<le> i" "i < length A" "A ! i ! j = 1" for i
      proof -
        have "i \<noteq> i0" using that False by auto
        with that show ?thesis using ih(3) [of i] by simp
      qed
      show ?thesis using ih(1) c2 c3 by blast
    qed
  qed
qed

lemma mat_ok_gf2_eliminate:
  assumes "mat_ok m A" "p < i0" "p < length A"
  shows "mat_ok m (gf2_eliminate p j A i0)"
proof -
  have "length (gf2_eliminate p j A i0 ! i) = m \<and> bits (gf2_eliminate p j A i0 ! i)"
    if "i < length A" for i
    using gf2_eliminate_nth [OF assms(2) that, of j] mat_ok_nth [OF assms(1) that]
      mat_ok_nth [OF assms(1,3)]
    by (simp add: length_xor_row bits_xor_row)
  then show ?thesis
    by (simp add: mat_ok_def list_all_length gf2_eliminate_length)
qed

lemma eliminate_total:
  assumes "mat_ok m A" "2 * N \<le> m" "p < i0" "length A \<le> length signs"
  shows "\<exists>signs'. eliminate N p j A signs i0 = Inr (gf2_eliminate p j A i0, signs')"
  using assms
proof (induction "length A - i0" arbitrary: A signs i0)
  case 0
  then have "\<not> i0 < length A" by simp
  then show ?case
    by (subst eliminate.simps, subst gf2_eliminate.simps) simp
next
  case (Suc n)
  then have lt: "i0 < length A" by simp
  with Suc.prems have p: "p < length A" by simp
  show ?case
  proof (cases "A ! i0 ! j = 1")
    case True
    let ?A1 = "A[i0 := xor_row (A ! i0) (A ! p)]"
    have ok1: "mat_ok m ?A1"
      using Suc.prems(1) mat_ok_nth [OF Suc.prems(1) lt] mat_ok_nth [OF Suc.prems(1) p]
      by (intro mat_ok_update) (simp_all add: length_xor_row bits_xor_row)
    have rows: "length (?A1 ! i0) = m" "length (?A1 ! p) = m" "bits (?A1 ! p)"
      using mat_ok_nth [OF ok1, of i0] mat_ok_nth [OF ok1, of p] lt p by simp_all
    obtain r where r: "row_sum (?A1 ! i0) (?A1 ! p) (signs ! i0) (signs ! p) N = Inr r"
      using row_sum_ok [of "?A1 ! p" N "?A1 ! i0" "signs ! i0" "signs ! p"] rows Suc.prems(2)
      by auto
    have "n = length ?A1 - Suc i0" using Suc.hyps(2) by simp
    from Suc.hyps(1) [OF this ok1 Suc.prems(2)] Suc.prems(3,4)
    obtain signs' where
      "eliminate N p j ?A1 (signs[i0 := r]) (Suc i0) = Inr (gf2_eliminate p j ?A1 (Suc i0), signs')"
      by (metis length_list_update less_Suc_eq)
    then show ?thesis
      using lt True r p Suc.prems(4)
      by (subst eliminate.simps, subst gf2_eliminate.simps) (simp add: sign_at_def Let_def)
  next
    case False
    have "n = length A - Suc i0" using Suc.hyps(2) by simp
    from Suc.hyps(1) [OF this Suc.prems(1,2)] Suc.prems(3,4)
    obtain signs' where
      "eliminate N p j A signs (Suc i0) = Inr (gf2_eliminate p j A (Suc i0), signs')"
      by (metis less_Suc_eq)
    then show ?thesis
      using lt False
      by (subst eliminate.simps, subst gf2_eliminate.simps) simp
  qed
qed

lemma eliminate_none:
  assumes "\<forall>i. i0 \<le> i \<and> i < length A \<longrightarrow> A ! i ! j \<noteq> 1"
  shows "eliminate N p j A signs i0 = Inr (A, signs)"
  using assms
proof (induction "length A - i0" arbitrary: i0)
  case 0
  then show ?case by (subst eliminate.simps) simp
next
  case (Suc n)
  then have lt: "i0 < length A" by simp
  have "n = length A - Suc i0" using Suc.hyps(2) by simp
  from Suc.hyps(1) [OF this] Suc.prems
  have "eliminate N p j A signs (Suc i0) = Inr (A, signs)" by simp
  then show ?case
    using lt Suc.prems by (subst eliminate.simps) simp
qed

lemma swap_rows_nth:
  assumes "c < length A" "p < length A" "i < length A"
  shows "swap_rows A c p ! i = (if i = p then A ! c else if i = c then A ! p else A ! i)"
  using assms by (simp add: swap_rows_def nth_list_update)

lemma length_swap_rows: "length (swap_rows A c p) = length A"
  by (simp add: swap_rows_def)

lemma mat_ok_swap_rows:
  assumes "mat_ok m A" "c < length A" "p < length A"
  shows "mat_ok m (swap_rows A c p)"
  unfolding swap_rows_def
  using assms mat_ok_nth [OF assms(1,2)] mat_ok_nth [OF assms(1,3)]
  by (intro mat_ok_update) simp_all

subsection \<open>The reduction loop: invariant and fixed point\<close>

text \<open>One column with a pivot: swap, then eliminate below.\<close>

lemma pivot_step:
  assumes ok: "mat_ok m A" and c: "c \<le> p" and p: "p < length A" and j: "j < m"
    and piv: "A ! p ! j \<noteq> 0"
    and zb: "\<forall>i k. c \<le> i \<and> i < length A \<and> k < j \<longrightarrow> A ! i ! k = 0"
  defines "A2 \<equiv> gf2_eliminate c j (swap_rows A c p) (Suc c)"
  shows "mat_ok m A2" "length A2 = length A" "\<forall>k<c. A2 ! k = A ! k" "lead (A2 ! c) = j"
    "\<forall>i k. Suc c \<le> i \<and> i < length A2 \<and> k < Suc j \<longrightarrow> A2 ! i ! k = 0"
proof -
  let ?A1 = "swap_rows A c p"
  have cl: "c < length A" using c p by simp
  have ok1: "mat_ok m ?A1" using mat_ok_swap_rows [OF ok cl p] .
  have len1: "length ?A1 = length A" by (rule length_swap_rows)
  show "mat_ok m A2"
    unfolding A2_def using mat_ok_gf2_eliminate [OF ok1, of c "Suc c" j] cl len1 by simp
  show len2: "length A2 = length A"
    unfolding A2_def by (simp add: gf2_eliminate_length len1)
  have nth2: "A2 ! i = (if Suc c \<le> i \<and> ?A1 ! i ! j = 1 then xor_row (?A1 ! i) (?A1 ! c) else ?A1 ! i)"
    if "i < length A" for i
    unfolding A2_def using gf2_eliminate_nth [of c "Suc c" i ?A1 j] that len1 by simp
  have A1c: "?A1 ! c = A ! p"
    using swap_rows_nth [OF cl p cl] by auto
  show "\<forall>k<c. A2 ! k = A ! k"
  proof (intro allI impI)
    fix k assume "k < c"
    then have "k < length A" "k \<noteq> p" "k \<noteq> c" "\<not> Suc c \<le> k" using cl c by simp_all
    then show "A2 ! k = A ! k"
      using nth2 [of k] swap_rows_nth [OF cl p, of k] by simp
  qed
  have rowp: "length (A ! p) = m" "\<forall>k<j. A ! p ! k = 0"
    using mat_ok_nth [OF ok p] zb c p by auto
  have "A2 ! c = A ! p" using nth2 [OF cl] A1c by simp
  then show "lead (A2 ! c) = j"
    using lead_eq [of j "A ! p"] rowp j piv by simp
  have pj: "A ! p ! j = 1" using mat_ok_entry [OF ok p j] piv by simp
  show "\<forall>i k. Suc c \<le> i \<and> i < length A2 \<and> k < Suc j \<longrightarrow> A2 ! i ! k = 0"
  proof (intro allI impI)
    fix i k assume a: "Suc c \<le> i \<and> i < length A2 \<and> k < Suc j"
    then have i: "i < length A" "Suc c \<le> i" and k: "k \<le> j" using len2 by simp_all
    define i' where "i' = (if i = p then c else i)"
    have i': "c \<le> i'" "i' < length A" "?A1 ! i = A ! i'"
      using i cl swap_rows_nth [OF cl p i(1)] by (auto simp: i'_def)
    have li: "length (A ! i') = m" using mat_ok_nth [OF ok i'(2)] by simp
    have km: "k < m" using k j by simp
    have e: "A ! i' ! k = 0 \<or> A ! i' ! k = 1" using mat_ok_entry [OF ok i'(2) km] .
    show "A2 ! i ! k = 0"
    proof (cases "A ! i' ! j = 1")
      case True
      then have "A2 ! i = xor_row (A ! i') (A ! p)"
        using nth2 [OF i(1)] i i' A1c by simp
      then have v: "A2 ! i ! k = (A ! i' ! k + A ! p ! k) mod 2"
        using nth_xor_row [of k "A ! i'" "A ! p"] li rowp km by simp
      show ?thesis
      proof (cases "k = j")
        case True
        with v pj \<open>A ! i' ! j = 1\<close> show ?thesis by simp
      next
        case False
        with k have "k < j" by simp
        with zb i' rowp(2) have "A ! i' ! k = 0" "A ! p ! k = 0" by simp_all
        with v show ?thesis by simp
      qed
    next
      case False
      then have eq: "A2 ! i = A ! i'"
        using nth2 [OF i(1)] i' by simp
      show ?thesis
      proof (cases "k = j")
        case True
        with False e eq show ?thesis by simp
      next
        case False
        with k have "k < j" by simp
        with zb i' eq show ?thesis by simp
      qed
    qed
  qed
qed

lemma swap_signs_ok:
  "c < length signs \<Longrightarrow> p < length signs \<Longrightarrow>
   \<exists>s1. swap_signs signs c p = Inr s1 \<and> length s1 = length signs"
  by (simp add: swap_signs_def)

lemma REF_loop_inv:
  assumes "mat_ok m A" "2 * N \<le> m" "length A \<le> length signs" "c \<le> length A" "j \<le> m"
    "\<forall>k<c. lead (A ! k) < j"
    "\<forall>k k'. k < k' \<and> k' < c \<longrightarrow> lead (A ! k) < lead (A ! k')"
    "\<forall>i k. c \<le> i \<and> i < length A \<and> k < j \<longrightarrow> A ! i ! k = 0"
  shows "\<exists>A' s' r. REF_loop N m A signs c j = Inr (A', s', r) \<and> gf2_loop m A c j = (A', r)
      \<and> mat_ok m A' \<and> length A' = length A \<and> length s' = length signs \<and> r \<le> length A'
      \<and> (\<forall>k<r. lead (A' ! k) < m)
      \<and> (\<forall>k k'. k < k' \<and> k' < r \<longrightarrow> lead (A' ! k) < lead (A' ! k'))
      \<and> (\<forall>i. r \<le> i \<and> i < length A' \<longrightarrow> lead (A' ! i) = m)"
  using assms
proof (induction "m - j" arbitrary: A signs c j)
  case 0
  then have jm: "j = m" by simp
  have r: "REF_loop N m A signs c j = Inr (A, signs, c)" "gf2_loop m A c j = (A, c)"
    using jm by (subst REF_loop.simps, simp, subst gf2_loop.simps, simp)
  have z: "lead (A ! i) = m" if "c \<le> i" "i < length A" for i
  proof -
    have "length (A ! i) = m" using mat_ok_nth [OF "0.prems"(1) that(2)] by simp
    moreover have "\<forall>k<m. A ! i ! k = 0" using "0.prems"(8) that jm by simp
    ultimately show ?thesis using lead_ge [of m "A ! i"] lead_le [of "A ! i"] by simp
  qed
  show ?case
    unfolding r using "0.prems" jm z by simp
next
  case (Suc n)
  then have jm: "j < m" by simp
  show ?case
  proof (cases "c \<ge> length A")
    case True
    have r: "REF_loop N m A signs c j = Inr (A, signs, c)" "gf2_loop m A c j = (A, c)"
      using jm True by (subst REF_loop.simps, simp, subst gf2_loop.simps, simp)
    show ?thesis
      unfolding r using Suc.prems jm True by auto
  next
    case False
    then have cl: "c < length A" by simp
    define p where "p = find_pivot A j c"
    have pc: "c \<le> p" "p \<le> length A"
      using find_pivot_ge [of c A j] find_pivot_le [of c A j] cl by (simp_all add: p_def)
    have n: "n = m - Suc j" using Suc.hyps(2) by simp
    show ?thesis
    proof (cases "p = length A")
      case True
      have r: "REF_loop N m A signs c j = REF_loop N m A signs c (Suc j)"
        "gf2_loop m A c j = gf2_loop m A c (Suc j)"
        using jm cl True
        by (subst REF_loop.simps, simp add: p_def [symmetric],
            subst gf2_loop.simps, simp add: p_def [symmetric])
      have zj: "A ! i ! j = 0" if "c \<le> i" "i < length A" for i
        using find_pivot_zero_before [of c i A j] that True by (simp add: p_def)
      have z: "\<forall>i k. c \<le> i \<and> i < length A \<and> k < Suc j \<longrightarrow> A ! i ! k = 0"
        using Suc.prems(8) zj by (auto simp: less_Suc_eq)
      have l: "\<forall>k<c. lead (A ! k) < Suc j" using Suc.prems(6) by (simp add: less_Suc_eq)
      show ?thesis
        unfolding r
        using Suc.hyps(1) [OF n Suc.prems(1,2,3,4) _ l Suc.prems(7) z] jm by simp
    next
      case False
      then have pl: "p < length A" using pc by simp
      have piv: "A ! p ! j \<noteq> 0" using find_pivot_nonzero [of A j c] pl by (simp add: p_def)
      define A2 where "A2 = gf2_eliminate c j (swap_rows A c p) (Suc c)"
      note st = pivot_step [OF Suc.prems(1) pc(1) pl jm piv Suc.prems(8), folded A2_def]
      obtain s1 where s1: "swap_signs signs c p = Inr s1" "length s1 = length signs"
        using swap_signs_ok [of c signs p] cl pl Suc.prems(3) by auto
      have ok1: "mat_ok m (swap_rows A c p)" using mat_ok_swap_rows [OF Suc.prems(1) cl pl] .
      obtain s2 where s2: "eliminate N c j (swap_rows A c p) s1 (Suc c) = Inr (A2, s2)"
        using eliminate_total [OF ok1 Suc.prems(2), of c "Suc c" s1 j] s1(2) Suc.prems(3)
        by (auto simp: A2_def length_swap_rows)
      have ls2: "length s2 = length signs"
        using eliminate_signs [OF s2] s1(2) by simp
      have r: "REF_loop N m A signs c j = REF_loop N m A2 s2 (Suc c) (Suc j)"
        "gf2_loop m A c j = gf2_loop m A2 (Suc c) (Suc j)"
        using jm cl False s1 s2
        by (subst REF_loop.simps, simp add: p_def [symmetric],
            subst gf2_loop.simps, simp add: p_def [symmetric] A2_def)
      have l: "\<forall>k<Suc c. lead (A2 ! k) < Suc j"
        using st(3,4) Suc.prems(6) by (auto simp: less_Suc_eq)
      have srt: "\<forall>k k'. k < k' \<and> k' < Suc c \<longrightarrow> lead (A2 ! k) < lead (A2 ! k')"
      proof (intro allI impI)
        fix k k' assume a: "k < k' \<and> k' < Suc c"
        show "lead (A2 ! k) < lead (A2 ! k')"
        proof (cases "k' = c")
          case True
          with a st(3,4) Suc.prems(6) show ?thesis by simp
        next
          case False
          with a have "k' < c" "k < c" by simp_all
          with a st(3) Suc.prems(7) show ?thesis by simp
        qed
      qed
      have "\<exists>A' s' r. REF_loop N m A2 s2 (Suc c) (Suc j) = Inr (A', s', r)
          \<and> gf2_loop m A2 (Suc c) (Suc j) = (A', r)
          \<and> mat_ok m A' \<and> length A' = length A2 \<and> length s' = length s2 \<and> r \<le> length A'
          \<and> (\<forall>k<r. lead (A' ! k) < m)
          \<and> (\<forall>k k'. k < k' \<and> k' < r \<longrightarrow> lead (A' ! k) < lead (A' ! k'))
          \<and> (\<forall>i. r \<le> i \<and> i < length A' \<longrightarrow> lead (A' ! i) = m)"
      proof -
        have h3: "length A2 \<le> length s2" using st(2) ls2 Suc.prems(3) by simp
        have h4: "Suc c \<le> length A2" using st(2) cl by simp
        have h5: "Suc j \<le> m" using jm by simp
        show ?thesis
          using Suc.hyps(1) [OF n st(1) Suc.prems(2) h3 h4 h5 l srt st(5)] .
      qed
      then show ?thesis
        unfolding r using st(2) ls2 by simp
    qed
  qed
qed

lemma REF_loop_fixed:
  assumes "mat_ok m A" "length A \<le> length signs" "c \<le> r" "r \<le> length A"
    "\<forall>k. c \<le> k \<and> k < r \<longrightarrow> j \<le> lead (A ! k) \<and> lead (A ! k) < m"
    "\<forall>k k'. c \<le> k \<and> k < k' \<and> k' < r \<longrightarrow> lead (A ! k) < lead (A ! k')"
    "\<forall>i. r \<le> i \<and> i < length A \<longrightarrow> lead (A ! i) = m"
  shows "REF_loop N m A signs c j = Inr (A, signs, r)"
  using assms(3,5,6)
proof (induction "m - j" arbitrary: c j)
  case 0
  then have "\<not> j < m" by simp
  moreover have "c = r"
  proof (rule ccontr)
    assume "c \<noteq> r"
    with "0.prems"(1) have "c < r" by simp
    with "0.prems"(2) have "j \<le> lead (A ! c) \<and> lead (A ! c) < m" by simp
    with \<open>\<not> j < m\<close> show False by simp
  qed
  ultimately show ?case by (subst REF_loop.simps) simp
next
  case (Suc n)
  then have jm: "j < m" by simp
  have n: "n = m - Suc j" using Suc.hyps(2) by simp
  show ?case
  proof (cases "c \<ge> length A")
    case True
    with Suc.prems(1) assms(4) have "c = r" by simp
    with True jm show ?thesis by (subst REF_loop.simps) simp
  next
    case False
    then have cl: "c < length A" by simp
    have len: "length (A ! i) = m" if "i < length A" for i
      using mat_ok_nth [OF assms(1) that] by simp
    show ?thesis
    proof (cases "c < r \<and> lead (A ! c) = j")
      case True
      then have "A ! c ! j \<noteq> 0"
        using lead_nonzero [of "A ! c"] len [OF cl] jm by auto
      then have fp: "find_pivot A j c = c" using find_pivot_here [OF cl] by simp
      have sw: "swap_signs signs c c = Inr signs" "swap_rows A c c = A"
        using cl assms(2) by (simp_all add: swap_signs_def swap_rows_def)
      have below: "A ! i ! j \<noteq> 1" if "Suc c \<le> i" "i < length A" for i
      proof (cases "i < r")
        case True
        with that Suc.prems(3) \<open>c < r \<and> lead (A ! c) = j\<close> have "j < lead (A ! i)"
          by (metis Suc_le_lessD order_refl)
        then show ?thesis using lead_zero_before [of j "A ! i"] by simp
      next
        case False
        with that assms(7) have "lead (A ! i) = m" by simp
        then show ?thesis using lead_zero_before [of j "A ! i"] jm by simp
      qed
      then have el: "eliminate N c j A signs (Suc c) = Inr (A, signs)"
        by (intro eliminate_none) simp
      have step: "REF_loop N m A signs c j = REF_loop N m A signs (Suc c) (Suc j)"
        using jm cl fp sw el by (subst REF_loop.simps) simp
      have a1: "Suc c \<le> r" using True by simp
      have a2: "\<forall>k. Suc c \<le> k \<and> k < r \<longrightarrow> Suc j \<le> lead (A ! k) \<and> lead (A ! k) < m"
      proof (intro allI impI)
        fix k assume k: "Suc c \<le> k \<and> k < r"
        then have "lead (A ! c) < lead (A ! k)" using Suc.prems(3) True
          by (metis Suc_le_lessD order_refl)
        with True Suc.prems(2) k show "Suc j \<le> lead (A ! k) \<and> lead (A ! k) < m" by simp
      qed
      have a3: "\<forall>k k'. Suc c \<le> k \<and> k < k' \<and> k' < r \<longrightarrow> lead (A ! k) < lead (A ! k')"
        using Suc.prems(3) by simp
      show ?thesis
        unfolding step using Suc.hyps(1) [OF n a1 a2 a3] .
    next
      case False
      have zero: "A ! i ! j = 0" if "c \<le> i" "i < length A" for i
      proof (cases "i < r")
        case True
        with that have cr: "c < r" by simp
        with Suc.prems(2) False have "j < lead (A ! c)" by (simp add: order.strict_iff_order)
        moreover have "lead (A ! c) \<le> lead (A ! i)"
          using Suc.prems(3) that True by (cases "i = c") (auto simp: order.strict_iff_order)
        ultimately show ?thesis using lead_zero_before [of j "A ! i"] by simp
      next
        case False
        with that assms(7) have "lead (A ! i) = m" by simp
        then show ?thesis using lead_zero_before [of j "A ! i"] jm by simp
      qed
      then have fp: "find_pivot A j c = length A"
        using find_pivot_none [of c A j] cl by simp
      have step: "REF_loop N m A signs c j = REF_loop N m A signs c (Suc j)"
        using jm cl fp by (subst REF_loop.simps) simp
      have a2: "\<forall>k. c \<le> k \<and> k < r \<longrightarrow> Suc j \<le> lead (A ! k) \<and> lead (A ! k) < m"
      proof (intro allI impI)
        fix k assume k: "c \<le> k \<and> k < r"
        then have "k < length A" using assms(4) by simp
        from zero [OF _ this] k have "A ! k ! j = 0" by simp
        moreover have "j \<le> lead (A ! k)" "lead (A ! k) < m" using Suc.prems(2) k by simp_all
        ultimately show "Suc j \<le> lead (A ! k) \<and> lead (A ! k) < m"
          using lead_nonzero [of "A ! k"] len [OF \<open>k < length A\<close>]
          by (metis Suc_leI le_neq_implies_less)
      qed
      show ?thesis
        unfolding step using Suc.hyps(1) [OF n Suc.prems(1) a2 Suc.prems(3)] .
    qed
  qed
qed

lemma shape_ok: "length A = N \<Longrightarrow> mat_ok (2 * N) A \<Longrightarrow> snd (shape A) = 2 * N"
  by (cases A) (simp_all add: shape_def mat_ok_def)

lemma REF_loop_start:
  assumes "state_ok A signs N"
  shows "\<exists>A' s' r. REF_loop N (2 * N) A signs 0 0 = Inr (A', s', r)
      \<and> gf2_loop (2 * N) A 0 0 = (A', r)
      \<and> state_ok A' s' N \<and> r \<le> N
      \<and> (\<forall>k<r. lead (A' ! k) < 2 * N)
      \<and> (\<forall>k k'. k < k' \<and> k' < r \<longrightarrow> lead (A' ! k) < lead (A' ! k'))
      \<and> (\<forall>i. r \<le> i \<and> i < N \<longrightarrow> lead (A' ! i) = 2 * N)"
proof -
  have a: "mat_ok (2 * N) A" "length A \<le> length signs" "length A = N" "length signs = N"
    using assms by (simp_all add: state_ok_def)
  from REF_loop_inv [OF a(1) order_refl a(2), of 0 0]
  show ?thesis
    using a(3,4) by (simp add: state_ok_def) metis
qed

lemma echelon_index:
  assumes "mat_ok m A" "r \<le> length A" "\<forall>k<r. lead (A ! k) < m"
    "\<forall>k k'. k < k' \<and> k' < r \<longrightarrow> lead (A ! k) < lead (A ! k')"
    "\<forall>i. r \<le> i \<and> i < length A \<longrightarrow> lead (A ! i) = m"
  shows "echelon A r"
proof -
  have len: "length (A ! i) = m" if "i < length A" for i
    using mat_ok_nth [OF assms(1) that] by simp
  have 1: "sorted_wrt (<) (map lead (take r A))"
    using assms(2,4) by (simp add: sorted_wrt_iff_nth_less)
  have 2: "list_all (\<lambda>row. lead row < length row) (take r A)"
    using assms(2,3) len by (simp add: list_all_length)
  have 3: "list_all (\<lambda>row. lead row = length row) (drop r A)"
    using assms(2,5) len by (simp add: list_all_length)
  show ?thesis using assms(2) 1 2 3 by (simp add: echelon_def)
qed

lemma echelon_count:
  assumes "echelon A r"
  shows "length (filter (\<lambda>row. lead row < length row) A) = r"
proof -
  have a: "filter (\<lambda>row. lead row < length row) (take r A) = take r A"
    using assms by (simp add: echelon_def list_all_iff)
  have b: "filter (\<lambda>row. lead row < length row) (drop r A) = []"
    using assms by (simp add: echelon_def list_all_iff)
  have "filter (\<lambda>row. lead row < length row) A
      = filter (\<lambda>row. lead row < length row) (take r A @ drop r A)" by simp
  also have "\<dots> = take r A" unfolding filter_append a b by simp
  finally show ?thesis using assms by (simp add: echelon_def)
qed

subsection \<open>The reduction\<close>

text \<open>
  C2. In the elimination loop below a pivot, every row \<open>i\<close> with a 1 in the pivot column
  is first replaced by its sum with the pivot row modulo 2, and its sign is then the result
  of \<open>row_sum\<close> called with the replaced row \<open>A'[i]\<close> as \<open>h\<close> and the pivot row as \<open>i\<close>,
  on the signs the two rows had before.
\<close>

theorem eliminate_uses_updated_row:
  assumes "eliminate N pivot_row j A signs i0 = Inr (A', signs')"
    "pivot_row < i0" "i0 \<le> i" "i < length A" "A ! i ! j = 1"
  shows "A' ! i = xor_row (A ! i) (A ! pivot_row)
     \<and> A' ! pivot_row = A ! pivot_row
     \<and> row_sum (A' ! i) (A' ! pivot_row) (signs ! i) (signs ! pivot_row) N = Inr (signs' ! i)"
proof -
  have A': "A' = gf2_eliminate pivot_row j A i0" using eliminate_mat [OF assms(1)] .
  have p: "pivot_row < length A" using assms(2,3,4) by simp
  have 1: "A' ! i = xor_row (A ! i) (A ! pivot_row)"
    unfolding A' using gf2_eliminate_nth [OF assms(2,4), of j] assms(3,5) by simp
  have 2: "A' ! pivot_row = A ! pivot_row"
    unfolding A' using gf2_eliminate_nth [OF assms(2) p, of j] assms(2) by simp
  have 3: "row_sum (A' ! i) (A ! pivot_row) (signs ! i) (signs ! pivot_row) N = Inr (signs' ! i)"
    using eliminate_signs [OF assms(1)] assms(2-5) by blast
  show ?thesis using 1 2 3 by simp
qed


theorem eliminate_uses_updated_row_witness:
  "eliminate 1 0 0 [[1, 0], [1, 1]] [0, 0] 1 = Inr ([[1, 0], [0, 1]], [0, 1])
   \<and> xor_row ([[1, 0], [1, 1]] ! 1) ([[1, 0], [1, 1]] ! 0) = [0, 1]
   \<and> row_sum [0, 1] [1, 0] 0 0 1 = Inr 1"
proof -
  have e: "eliminate 1 0 0 [[1, 0], [1, 1]] [0, 0] 1 = Inr ([[1, 0], [0, 1]], [0, 1])"
    by code_simp
  show ?thesis
    using eliminate_uses_updated_row [OF e, of 1] e by (simp add: xor_row_def)
qed

text \<open>
  C4. For an \<open>N \<times> 2N\<close> binary matrix with \<open>N\<close> signs, \<open>REF_binary\<close> returns, and
  running it again on what it returned gives the same matrix and the same signs.
\<close>

theorem REF_binary_idempotent:
  assumes "state_ok A signs N"
  shows "\<exists>A' signs'. REF_binary A signs N = Inr (A', signs')
           \<and> REF_binary A' signs' N = Inr (A', signs')"
proof -
  from REF_loop_start [OF assms] obtain A' s' r where
    r: "REF_loop N (2 * N) A signs 0 0 = Inr (A', s', r)" "state_ok A' s' N" "r \<le> N"
      "\<forall>k<r. lead (A' ! k) < 2 * N"
      "\<forall>k k'. k < k' \<and> k' < r \<longrightarrow> lead (A' ! k) < lead (A' ! k')"
      "\<forall>i. r \<le> i \<and> i < N \<longrightarrow> lead (A' ! i) = 2 * N"
    by blast
  have s: "snd (shape A) = 2 * N" "snd (shape A') = 2 * N"
    using assms r(2) by (simp_all add: state_ok_def shape_ok)
  have ok: "mat_ok (2 * N) A'" "length A' \<le> length s'" "r \<le> length A'" "length A' = N"
    using r(2,3) by (simp_all add: state_ok_def)
  have "REF_loop N (2 * N) A' s' 0 0 = Inr (A', s', r)"
    using REF_loop_fixed [OF ok(1,2) _ ok(3), of 0 0 N] r(4,5,6) ok(4) by simp
  with r(1) s show ?thesis by (simp add: REF_binary_def)
qed


theorem REF_binary_idempotent_witness:
  "state_ok [[1, 1, 1, 0, 0, 1], [1, 0, 0, 1, 1, 1], [0, 1, 1, 1, 0, 1]] [0, 1, 0] 3
   \<and> REF_binary [[1, 1, 1, 0, 0, 1], [0, 1, 1, 1, 1, 0], [0, 0, 0, 0, 1, 1]] [0, 1, 1] 3
       = Inr ([[1, 1, 1, 0, 0, 1], [0, 1, 1, 1, 1, 0], [0, 0, 0, 0, 1, 1]], [0, 1, 1])"
proof -
  have h: "state_ok [[1, 1, 1, 0, 0, 1], [1, 0, 0, 1, 1, 1], [0, 1, 1, 1, 0, 1]] [0, 1, 0] 3"
    by code_simp
  have e: "REF_binary [[1, 1, 1, 0, 0, 1], [1, 0, 0, 1, 1, 1], [0, 1, 1, 1, 0, 1]] [0, 1, 0] 3
       = Inr ([[1, 1, 1, 0, 0, 1], [0, 1, 1, 1, 1, 0], [0, 0, 0, 0, 1, 1]], [0, 1, 1])"
    by code_simp
  show ?thesis
    using REF_binary_idempotent [OF h] h unfolding e by simp
qed

lemma row_sum_combine:
  assumes "bits i" "2 * N \<le> length i" "2 * N \<le> length h"
  shows "row_sum h i rh ri N = Inr (combine_spec h i rh ri N)"
  using assms by (simp add: row_sum_def combine_spec_def row_sum_k_bits Let_def)

lemma scan_spec_find_pivot:
  assumes "mat_ok m A" "length signs = length A" "j < m"
  shows "scan_spec (zip A signs) j c = find_pivot A j c"
proof (induction "length A - c" arbitrary: c)
  case 0
  then show ?case
    using assms(2) by (subst scan_spec.simps, subst find_pivot.simps) simp
next
  case (Suc n)
  then have c: "c < length A" and n: "n = length A - Suc c" by simp_all
  have e: "A ! c ! j = 0 \<or> A ! c ! j = 1" using mat_ok_entry [OF assms(1) c assms(3)] .
  show ?case
    using Suc.hyps(1) [OF n] c e assms(2)
    by (subst scan_spec.simps, subst find_pivot.simps) auto
qed

lemma zip_swap:
  assumes "c < length A" "p < length A" "length signs = length A"
  shows "\<exists>s1. swap_signs signs c p = Inr s1 \<and> length s1 = length signs
     \<and> zip (swap_rows A c p) s1
         = ((zip A signs)[c := zip A signs ! p])[p := zip A signs ! c]"
  using assms by (simp add: swap_signs_def swap_rows_def zip_update)

lemma eliminate_pairs:
  assumes "eliminate N p j A s i0 = Inr (A2, s2)" "mat_ok m A" "2 * N \<le> m" "p < i0"
    "length s = length A"
  shows "eliminate_spec N p j (zip A s) i0 = zip A2 s2"
  using assms(1,2,4,5)
proof (induction "length A - i0" arbitrary: A s i0)
  case 0
  then have "\<not> i0 < length A" by simp
  with "0.prems" show ?case
    by (subst eliminate_spec.simps, subst (asm) eliminate.simps) simp
next
  case (Suc n)
  then have lt: "i0 < length A" and n: "n = length A - Suc i0" by simp_all
  have p: "p < length A" by (rule less_trans [OF Suc.prems(3) lt])
  have p': "p < Suc i0" using Suc.prems(3) by simp
  show ?case
  proof (cases "A ! i0 ! j = 1")
    case True
    let ?u = "xor_row (A ! i0) (A ! p)"
    let ?A1 = "A[i0 := ?u]"
    from Suc.prems(1) lt True obtain r where
      r: "row_sum (?A1 ! i0) (?A1 ! p) (s ! i0) (s ! p) N = Inr r"
      and rec: "eliminate N p j ?A1 (s[i0 := r]) (Suc i0) = Inr (A2, s2)"
      by (subst (asm) eliminate.simps)
        (auto simp: Let_def sign_at_def split: sum.splits if_splits)
    have rows: "length (A ! i0) = m" "length (A ! p) = m" "bits (A ! p)"
      using mat_ok_nth [OF Suc.prems(2) lt] mat_ok_nth [OF Suc.prems(2) p] by simp_all
    have ok1: "mat_ok m ?A1"
      using Suc.prems(2) rows by (intro mat_ok_update) (simp_all add: length_xor_row bits_xor_row)
    have "row_sum ?u (A ! p) (s ! i0) (s ! p) N = Inr (combine_spec ?u (A ! p) (s ! i0) (s ! p) N)"
      using rows assms(3) by (intro row_sum_combine) (simp_all add: length_xor_row)
    with r lt Suc.prems(3) have rv: "r = combine_spec ?u (A ! p) (s ! i0) (s ! p) N"
      by simp
    have n1: "n = length ?A1 - Suc i0" using n by simp
    have l1: "length (s[i0 := r]) = length ?A1" using Suc.prems(4) by simp
    have ih: "eliminate_spec N p j (zip ?A1 (s[i0 := r])) (Suc i0) = zip A2 s2"
      using Suc.hyps(1) [OF n1 rec ok1 p' l1] .
    have z: "zip ?A1 (s[i0 := r]) = (zip A s)[i0 := (?u, r)]"
      by (simp add: zip_update)
    show ?thesis
      using lt p True Suc.prems(4) ih
      by (subst eliminate_spec.simps) (simp add: Let_def zip_update rv)
  next
    case False
    from Suc.prems(1) lt False have rec: "eliminate N p j A s (Suc i0) = Inr (A2, s2)"
      by (subst (asm) eliminate.simps) simp
    have ih: "eliminate_spec N p j (zip A s) (Suc i0) = zip A2 s2"
      using Suc.hyps(1) [OF n rec Suc.prems(2) p' Suc.prems(4)] .
    show ?thesis
      using lt False Suc.prems(4) ih by (subst eliminate_spec.simps) simp
  qed
qed

lemma REF_loop_pairs:
  assumes "mat_ok (2 * N) A" "length signs = N" "length A = N" "c \<le> N"
    "REF_loop N (2 * N) A signs c j = Inr (A', s', r)"
  shows "reduce_spec_loop N (zip A signs) c j = (zip A' s', r)"
  using assms
proof (induction "2 * N - j" arbitrary: A signs c j)
  case 0
  then have "\<not> j < 2 * N" by simp
  with "0.prems"(5) show ?case
    by (subst reduce_spec_loop.simps, subst (asm) REF_loop.simps) simp
next
  case (Suc n)
  then have jm: "j < 2 * N" and n: "n = 2 * N - Suc j" by simp_all
  show ?case
  proof (cases "c = N")
    case True
    with jm Suc.prems(3,5) show ?thesis
      by (subst reduce_spec_loop.simps, subst (asm) REF_loop.simps) simp
  next
    case False
    with Suc.prems(3,4) have cl: "c < length A" by simp
    define p where "p = find_pivot A j c"
    have sp: "scan_spec (zip A signs) j c = p"
      using scan_spec_find_pivot [OF Suc.prems(1) _ jm, of signs c] Suc.prems(2,3)
      by (simp add: p_def)
    have pc: "c \<le> p" "p \<le> length A"
      using find_pivot_ge [of c A j] find_pivot_le [of c A j] cl by (simp_all add: p_def)
    have lz: "length (zip A signs) = length A" using Suc.prems(2,3) by simp
    show ?thesis
    proof (cases "p = length A")
      case True
      have "REF_loop N (2 * N) A signs c j = REF_loop N (2 * N) A signs c (Suc j)"
        using jm cl True by (subst REF_loop.simps) (simp add: p_def [symmetric])
      with Suc.prems(5) have "REF_loop N (2 * N) A signs c (Suc j) = Inr (A', s', r)" by simp
      from Suc.hyps(1) [OF n Suc.prems(1,2,3,4) this]
      show ?thesis
        using jm False True sp lz Suc.prems(3)
        by (subst reduce_spec_loop.simps) (simp add: Let_def)
    next
      case False
      then have pl: "p < length A" using pc by simp
      from zip_swap [OF cl pl, of signs] Suc.prems(2,3) obtain s1 where
        s1: "swap_signs signs c p = Inr s1" "length s1 = length signs"
          "zip (swap_rows A c p) s1
             = ((zip A signs)[c := zip A signs ! p])[p := zip A signs ! c]"
        by auto
      have ok1: "mat_ok (2 * N) (swap_rows A c p)"
        using mat_ok_swap_rows [OF Suc.prems(1) cl pl] .
      define A2 where "A2 = gf2_eliminate c j (swap_rows A c p) (Suc c)"
      obtain s2 where s2: "eliminate N c j (swap_rows A c p) s1 (Suc c) = Inr (A2, s2)"
        using eliminate_total [OF ok1 order_refl, of c "Suc c" s1 j] s1(2) Suc.prems(2,3)
        by (auto simp: A2_def length_swap_rows)
      have ls2: "length s2 = N"
        using eliminate_signs [OF s2] s1(2) Suc.prems(2) by simp
      have lA2: "length A2 = N"
        by (simp add: A2_def gf2_eliminate_length length_swap_rows Suc.prems(3))
      have ok2: "mat_ok (2 * N) A2"
        unfolding A2_def using mat_ok_gf2_eliminate [OF ok1, of c "Suc c" j] cl
        by (simp add: length_swap_rows)
      have ep: "eliminate_spec N c j (zip (swap_rows A c p) s1) (Suc c) = zip A2 s2"
        using eliminate_pairs [OF s2 ok1 order_refl] s1(2) Suc.prems(2,3)
        by (simp add: length_swap_rows)
      have "REF_loop N (2 * N) A signs c j = REF_loop N (2 * N) A2 s2 (Suc c) (Suc j)"
        using jm cl False s1(1) s2 by (subst REF_loop.simps) (simp add: p_def [symmetric])
      with Suc.prems(5) have rec: "REF_loop N (2 * N) A2 s2 (Suc c) (Suc j) = Inr (A', s', r)"
        by simp
      have c2: "Suc c \<le> N" using cl Suc.prems(3) by simp
      from Suc.hyps(1) [OF n ok2 ls2 lA2 c2 rec]
      have ih: "reduce_spec_loop N (zip A2 s2) (Suc c) (Suc j) = (zip A' s', r)" .
      show ?thesis
        using jm \<open>c \<noteq> N\<close> False sp lz ih
        by (subst reduce_spec_loop.simps) (simp add: Let_def ep [symmetric] s1(3))
    qed
  qed
qed

text \<open>
  C5, as the code has it. For an \<open>N \<times> 2N\<close> binary matrix with \<open>N\<close> signs, \<open>REF_binary\<close>
  returns the pair of the reduced matrix and the sign vector, and nothing else: an
  \<open>N \<times> 2N\<close> binary matrix in echelon form (the leading entries of the first \<open>r\<close> rows
  in strictly increasing columns, the other rows zero) and \<open>N\<close> signs consistent with
  the final row order: the returned rows paired with the returned signs are the
  generators of the input, each row with its sign, reduced as the specification words
  it, every swap and every update moving a sign with its row. Here \<open>r\<close> is the final
  \<open>current_row\<close>, the number of rows with a pivot; \<open>r\<close> itself is not part of the
  returned value.
\<close>

theorem REF_binary_echelon:
  assumes "state_ok A signs N"
  shows "\<exists>A' signs' r. REF_binary A signs N = Inr (A', signs')
           \<and> REF_current_row A signs N = Inr r
           \<and> state_ok A' signs' N
           \<and> echelon A' r
           \<and> length (filter (\<lambda>row. lead row < length row) A') = r
           \<and> reduce_spec N (zip A signs) = (zip A' signs', r)"
proof -
  from REF_loop_start [OF assms] obtain A' s' r where
    r: "REF_loop N (2 * N) A signs 0 0 = Inr (A', s', r)" "state_ok A' s' N" "r \<le> N"
      "\<forall>k<r. lead (A' ! k) < 2 * N"
      "\<forall>k k'. k < k' \<and> k' < r \<longrightarrow> lead (A' ! k) < lead (A' ! k')"
      "\<forall>i. r \<le> i \<and> i < N \<longrightarrow> lead (A' ! i) = 2 * N"
    by blast
  have s: "snd (shape A) = 2 * N"
    using assms by (simp add: state_ok_def shape_ok)
  have ok: "mat_ok (2 * N) A'" "r \<le> length A'" "length A' = N"
    using r(2,3) by (simp_all add: state_ok_def)
  have e: "echelon A' r"
    using echelon_index [OF ok(1,2) r(4,5)] r(6) ok(3) by simp
  have a: "mat_ok (2 * N) A" "length signs = N" "length A = N"
    using assms by (simp_all add: state_ok_def)
  have p: "reduce_spec N (zip A signs) = (zip A' s', r)"
    unfolding reduce_spec_def using REF_loop_pairs [OF a _ r(1)] by simp
  show ?thesis
    using r(1,2) s e echelon_count [OF e] p
    by (simp add: REF_binary_def REF_current_row_def)
qed

theorem REF_binary_echelon_witness:
  "state_ok [[0, 1, 1, 0, 0, 1], [1, 0, 0, 1, 1, 1], [1, 1, 1, 1, 0, 1]] [0, 1, 0] 3
   \<and> REF_current_row [[0, 1, 1, 0, 0, 1], [1, 0, 0, 1, 1, 1], [1, 1, 1, 1, 0, 1]] [0, 1, 0] 3
       = Inr 3
   \<and> echelon [[1, 0, 0, 1, 1, 1], [0, 1, 1, 0, 0, 1], [0, 0, 0, 0, 1, 1]] 3
   \<and> reduce_spec 3 (zip [[0, 1, 1, 0, 0, 1], [1, 0, 0, 1, 1, 1], [1, 1, 1, 1, 0, 1]] [0, 1, 0])
       = (zip [[1, 0, 0, 1, 1, 1], [0, 1, 1, 0, 0, 1], [0, 0, 0, 0, 1, 1]] [1, 0, 1], 3)"
proof -
  have h: "state_ok [[0, 1, 1, 0, 0, 1], [1, 0, 0, 1, 1, 1], [1, 1, 1, 1, 0, 1]] [0, 1, 0] 3"
    by code_simp
  have e: "REF_binary [[0, 1, 1, 0, 0, 1], [1, 0, 0, 1, 1, 1], [1, 1, 1, 1, 0, 1]] [0, 1, 0] 3
       = Inr ([[1, 0, 0, 1, 1, 1], [0, 1, 1, 0, 0, 1], [0, 0, 0, 0, 1, 1]], [1, 0, 1])"
    by code_simp
  have c: "REF_current_row [[0, 1, 1, 0, 0, 1], [1, 0, 0, 1, 1, 1], [1, 1, 1, 1, 0, 1]] [0, 1, 0] 3
       = Inr 3"
    by code_simp
  from REF_binary_echelon [OF h] obtain A' signs' r where
    r: "REF_binary [[0, 1, 1, 0, 0, 1], [1, 0, 0, 1, 1, 1], [1, 1, 1, 1, 0, 1]] [0, 1, 0] 3
          = Inr (A', signs')"
      "REF_current_row [[0, 1, 1, 0, 0, 1], [1, 0, 0, 1, 1, 1], [1, 1, 1, 1, 0, 1]] [0, 1, 0] 3
          = Inr r"
      "echelon A' r"
      "reduce_spec 3 (zip [[0, 1, 1, 0, 0, 1], [1, 0, 0, 1, 1, 1], [1, 1, 1, 1, 0, 1]] [0, 1, 0])
          = (zip A' signs', r)"
    by blast
  from r(1,2) have v: "A' = [[1, 0, 0, 1, 1, 1], [0, 1, 1, 0, 0, 1], [0, 0, 0, 0, 1, 1]]"
    "signs' = [1, 0, 1]" "r = 3"
    unfolding e c by simp_all
  show ?thesis
    using h c r(3,4) unfolding v by simp
qed

text \<open>
  C5 as stated fails: the value \<open>REF_binary\<close> returns holds the matrix and the signs
  only. On the one-qubit operator Z the final \<open>current_row\<close> is 1, it is not returned, and
  the rank the drivers then compute for themselves (of the X part) is 0.
\<close>

theorem REF_binary_returns_no_rank:
  "REF_binary [[0, 1]] [0] 1 = Inr ([[0, 1]], [0])
   \<and> REF_current_row [[0, 1]] [0] 1 = Inr 1
   \<and> gf2_rank (rows (xs [[0, 1]])) = 0"
  by code_simp

text \<open>
  C6. On an \<open>N \<times> 2N\<close> binary matrix, with any \<open>N\<close> signs, the final \<open>current_row\<close> of
  the reduction is the rank that the sign-free elimination \<open>gf2_rank\<close> computes.
\<close>

theorem gf2_rank_agrees_with_REF:
  assumes "state_ok A signs N"
  shows "REF_current_row A signs N = Inr (gf2_rank A)"
proof -
  from REF_loop_start [OF assms] obtain A' s' r where
    r: "REF_loop N (2 * N) A signs 0 0 = Inr (A', s', r)" "gf2_loop (2 * N) A 0 0 = (A', r)"
    by blast
  have s: "snd (shape A) = 2 * N"
    using assms by (simp add: state_ok_def shape_ok)
  show ?thesis using r s by (simp add: REF_current_row_def gf2_rank_def)
qed


theorem gf2_rank_agrees_with_REF_witness:
  "state_ok [[1, 1, 1, 0], [1, 1, 1, 0]] [1, 0] 2
   \<and> REF_current_row [[1, 1, 1, 0], [1, 1, 1, 0]] [1, 0] 2 = Inr 1
   \<and> gf2_rank [[1, 1, 1, 0], [1, 1, 1, 0]] = 1"
proof -
  have h: "state_ok [[1, 1, 1, 0], [1, 1, 1, 0]] [1, 0] 2"
    by code_simp
  have r: "gf2_rank [[1, 1, 1, 0], [1, 1, 1, 0]] = 1"
    by code_simp
  show ?thesis
    using gf2_rank_agrees_with_REF [OF h] h r by simp
qed

subsection \<open>The correlator sample\<close>

lemma gf2_loop_le: "c \<le> length A \<Longrightarrow> snd (gf2_loop n A c j) \<le> length A"
proof (induction "n - j" arbitrary: A c j)
  case 0
  then show ?case by (subst gf2_loop.simps) simp
next
  case (Suc d)
  then have jn: "j < n" and d: "d = n - Suc j" by simp_all
  show ?case
  proof (cases "c \<ge> length A")
    case True
    with jn Suc.prems show ?thesis by (subst gf2_loop.simps) simp
  next
    case False
    let ?A2 = "gf2_eliminate c j (swap_rows A c (find_pivot A j c)) (Suc c)"
    have l: "length ?A2 = length A" by (simp add: gf2_eliminate_length length_swap_rows)
    have 1: "snd (gf2_loop n A c (Suc j)) \<le> length A"
      using Suc.hyps(1) [OF d Suc.prems] .
    have "snd (gf2_loop n ?A2 (Suc c) (Suc j)) \<le> length ?A2"
      using Suc.hyps(1) [OF d, of "Suc c" ?A2] False l by simp
    then have 2: "snd (gf2_loop n ?A2 (Suc c) (Suc j)) \<le> length A" using l by simp
    show ?thesis
      using jn False 1 2 by (subst gf2_loop.simps) (simp add: Let_def)
  qed
qed

lemma gf2_rank_le: "gf2_rank A \<le> length A"
  using gf2_loop_le [of 0 A] by (simp add: gf2_rank_def)

lemma Ans_loop_char:
  "n \<le> length s \<Longrightarrow> Ans_loop s n = Inr (if \<exists>k<n. s ! k = 1 then 1 else 0)"
proof (induction n)
  case 0
  then show ?case by simp
next
  case (Suc n)
  then have "Ans_loop s n = Inr (if \<exists>k<n. s ! k = 1 then 1 else 0)" "n < length s"
    by simp_all
  then show ?case
    by (auto simp: sign_at_def less_Suc_eq)
qed

lemma Ans_loop_all:
  "Ans_loop s (length s) = Inr (if 1 \<in> set s then 1 else 0)"
  using Ans_loop_char [of "length s" s] by (simp add: in_set_conv_nth)

lemma small_zs_ok:
  assumes "length REF = N" "mat_ok (2 * N) REF" "r \<le> N"
  shows "\<exists>small. small_zs REF (int N - int r) N = Inr small"
proof -
  have "length (drop N row) = N" if "row \<in> set (drop r REF)" for row
  proof -
    from that have "row \<in> set REF" by (rule in_set_dropD)
    with assms(2) show ?thesis by (simp add: mat_ok_def list_all_iff)
  qed
  then show ?thesis
    using assms(1,3) by (simp add: small_zs_def Let_def list_all_iff)
qed

text \<open>
  C3. For an \<open>N \<times> 2N\<close> binary matrix with \<open>N\<close> signs, the sample is computed without
  an exception: with \<open>r\<close> the rank of the X part of the reduced matrix (\<open>size2 = N - r\<close>),
  the contribution is 0 if one of the bottom \<open>size2\<close> signs is 1, and \<open>2 powr (- r / 2)\<close>
  otherwise; so it is 0 or lies in the interval from 0 (excluded) to 1, and is never
  negative.
\<close>

theorem OTOC_sample_contribution:
  assumes "state_ok bMat signs3 N"
  shows "\<exists>REF signs3'. REF_binary bMat signs3 N = Inr (REF, signs3') \<and>
     (let r = gf2_rank (rows (xs REF));
          c = (if 1 \<in> set (drop r signs3') then 0 else 2 powr (- real r / 2))
      in r \<le> N \<and> OTOC_sample bMat signs3 N = Inr c \<and> (c = 0 \<or> (0 < c \<and> c \<le> 1)))"
proof -
  from REF_loop_start [OF assms] obtain REF s' r0 where
    r: "REF_loop N (2 * N) bMat signs3 0 0 = Inr (REF, s', r0)" "state_ok REF s' N"
    by blast
  have s: "snd (shape bMat) = 2 * N"
    using assms by (simp add: state_ok_def shape_ok)
  have ref: "REF_binary bMat signs3 N = Inr (REF, s')"
    using r(1) s by (simp add: REF_binary_def)
  define r where "r = gf2_rank (rows (xs REF))"
  have ok: "length REF = N" "mat_ok (2 * N) REF" "length s' = N"
    using r(2) by (simp_all add: state_ok_def)
  have rN: "r \<le> N"
    using gf2_rank_le [of "xs REF"] ok(1) by (simp add: r_def rows_def xs_def)
  obtain small where sm: "small_zs REF (int N - int r) N = Inr small"
    using small_zs_ok [OF ok(1,2) rN] by blast
  have len: "length (drop r s') = N - r" using ok(3) by simp
  have ans: "Ans_loop (drop r s') (nat (int N - int r)) = Inr (if 1 \<in> set (drop r s') then 1 else 0)"
    using Ans_loop_all [of "drop r s'"] len rN by (simp add: nat_diff_distrib')
  have val: "OTOC_sample bMat signs3 N
      = Inr (if 1 \<in> set (drop r s') then 0 else 2 powr (- real r / 2))"
    using ref sm ans by (simp add: OTOC_sample_def Let_def r_def [symmetric])
  have "(2::real) powr (- real r / 2) \<le> 2 powr 0"
    by (rule powr_mono) simp_all
  then have rng: "0 < (2::real) powr (- real r / 2)" "(2::real) powr (- real r / 2) \<le> 1"
    by simp_all
  show ?thesis
    using ref val rN rng by (simp add: Let_def r_def [symmetric])
qed


theorem OTOC_sample_contribution_witness:
  "state_ok [[0, 1]] [0] 1 \<and> OTOC_sample [[0, 1]] [0] 1 = Inr 1
   \<and> state_ok [[0, 1]] [1] 1 \<and> OTOC_sample [[0, 1]] [1] 1 = Inr 0"
proof -
  have h: "state_ok [[0, 1]] [0] 1" "state_ok [[0, 1]] [1] 1"
    by code_simp+
  have e: "REF_binary [[0, 1]] [0] 1 = Inr ([[0, 1]], [0])"
    "REF_binary [[0, 1]] [1] 1 = Inr ([[0, 1]], [1])"
    by code_simp+
  have r: "gf2_rank (rows (xs [[0, 1]])) = 0"
    by code_simp
  have "OTOC_sample [[0, 1]] [0] 1 = Inr 1"
    using OTOC_sample_contribution [OF h(1)] unfolding e by (simp add: r)
  moreover have "OTOC_sample [[0, 1]] [1] 1 = Inr 0"
    using OTOC_sample_contribution [OF h(2)] unfolding e by (simp add: r)
  ultimately show ?thesis using h by simp
qed

subsection \<open>The entropy computation\<close>

lemma entropy_SA_cut0: "entropy_SA mat 0 = Inr 0"
proof -
  have "gf2_loop 0 A 0 0 = (A, 0)" for A by (subst gf2_loop.simps) simp
  moreover have "snd (shape (map (\<lambda>r. []) mat)) = 0"
    by (cases mat) (simp_all add: shape_def)
  ultimately show ?thesis
    by (simp add: entropy_SA_def getCutStabilizers_def rows_def gf2_rank_def)
qed

lemma entropy_SA_full:
  assumes "length mat = N" "mat_ok (2 * N) mat"
  shows "entropy_SA mat (int N) = Inr (int (gf2_rank mat) - int N)"
proof -
  have "map (\<lambda>r. take N r @ take N (drop (2 * N - N) r)) mat = mat"
  proof (rule map_idI)
    fix r assume "r \<in> set mat"
    with assms(2) have "length r = 2 * N" by (simp add: mat_ok_def list_all_iff)
    then show "take N r @ take N (drop (2 * N - N) r) = r" by simp
  qed
  then show ?thesis
    using assms(1) by (simp add: entropy_SA_def getCutStabilizers_def rows_def)
qed

text \<open>
  C7. For a valid stabilizer state over \<open>N\<close> qubits (an \<open>N \<times> 2N\<close> binary matrix of
  independent generators), the entropy lines give 0 at \<open>cut = 0\<close> and \<open>N\<close> minus the rank
  of the whole matrix at \<open>cut = N\<close>. (The lines compute the rank minus \<open>cut\<close>, lemma
  \<open>entropy_SA_full\<close>; the two agree, at 0, because the generators are independent.)
\<close>

theorem entropy_edge_cases:
  assumes "valid_state mat N"
  shows "entropy_SA mat 0 = Inr 0
     \<and> entropy_SA mat (int N) = Inr (int N - int (gf2_rank mat))"
  using assms entropy_SA_cut0 [of mat] entropy_SA_full [of mat N]
  by (simp add: valid_state_def)


theorem entropy_edge_cases_witness:
  "valid_state [[0, 0, 1, 0], [0, 0, 0, 1]] 2
   \<and> entropy_SA [[0, 0, 1, 0], [0, 0, 0, 1]] 0 = Inr 0
   \<and> entropy_SA [[0, 0, 1, 0], [0, 0, 0, 1]] 2 = Inr 0"
proof -
  have h: "valid_state [[0, 0, 1, 0], [0, 0, 0, 1]] 2"
    by code_simp
  show ?thesis
    using entropy_edge_cases [OF h] h by (simp add: valid_state_def)
qed

lemma entropy_SA_cases:
  "entropy_SA mat cut_q =
     (if cut_q < 0 \<or> int (length mat) < cut_q then Inl InvalidCut
      else Inr (int (gf2_rank (map (\<lambda>r. take (nat cut_q) (drop (length mat - nat cut_q) r)
                            @ take (nat cut_q) (drop (2 * length mat - nat cut_q) r)) mat)) - cut_q))"
  by (simp add: entropy_SA_def getCutStabilizers_def rows_def Let_def)

text \<open>
  C8. The entropy lines raise \<open>InvalidCut\<close> whenever \<open>cut\<close> is negative or greater than
  the number of qubits (the number of rows of the matrix), and return a value for every
  other \<open>cut\<close>: an out-of-range \<open>cut\<close> is neither clamped nor accepted.
\<close>

theorem entropy_invalid_cut:
  "(cut_q < 0 \<or> int (length mat) < cut_q \<longrightarrow> entropy_SA mat cut_q = Inl InvalidCut)
   \<and> (0 \<le> cut_q \<and> cut_q \<le> int (length mat) \<longrightarrow> (\<exists>SA. entropy_SA mat cut_q = Inr SA))"
  by (simp add: entropy_SA_cases)


theorem entropy_invalid_cut_witness:
  "entropy_SA [[0, 0, 1, 0], [0, 0, 0, 1]] 3 = Inl InvalidCut
   \<and> entropy_SA [[0, 0, 1, 0], [0, 0, 0, 1]] (- 1) = Inl InvalidCut
   \<and> (\<exists>SA. entropy_SA [[0, 0, 1, 0], [0, 0, 0, 1]] 1 = Inr SA)"
  using entropy_invalid_cut [of 3 "[[0, 0, 1, 0], [0, 0, 0, 1]]"]
    entropy_invalid_cut [of "- 1" "[[0, 0, 1, 0], [0, 0, 0, 1]]"]
    entropy_invalid_cut [of 1 "[[0, 0, 1, 0], [0, 0, 0, 1]]"]
  by simp

subsection \<open>runFS1\<close>

lemma FS1_inner_first:
  "FS1_inner out N res cut_q k (Suc n) v = FS1_body out N res cut_q k 0 v"
  if "\<And>w. \<exists>e. FS1_body out N res cut_q k 0 w = Inl e"
proof (induction n)
  case 0
  show ?case by simp
next
  case (Suc n)
  from that [of v] obtain e where e: "FS1_body out N res cut_q k 0 v = Inl e" by blast
  have "FS1_inner out N res cut_q k (Suc (Suc n)) v =
      (case FS1_inner out N res cut_q k (Suc n) v of
         Inl e \<Rightarrow> Inl e
       | Inr v' \<Rightarrow> FS1_body out N res cut_q k (Suc n) v')"
    by (rule FS1_inner.simps(2))
  also have "\<dots> = FS1_body out N res cut_q k 0 v"
    unfolding Suc.IH e by simp
  finally show ?case .
qed

lemma FS1_body_first:
  "FS1_body out N res cut_q k 0 v =
     Inl (case FS1Step out N k 0 of Inl e \<Rightarrow> e | Inr s \<Rightarrow>
          (case SA_lines out N cut_q k 0 of Inl e \<Rightarrow> e | Inr SA \<Rightarrow> NameError ''l''))"
  by (simp add: FS1_body_def split: sum.splits)

lemma FS1_outer_first:
  assumes "1 \<le> T"
  shows "FS1_outer out N T res cut_q (Suc m) v =
     Inl (case FS1Step out N 0 0 of Inl e \<Rightarrow> e | Inr s \<Rightarrow>
          (case SA_lines out N cut_q 0 0 of Inl e \<Rightarrow> e | Inr SA \<Rightarrow> NameError ''l''))"
proof -
  from assms obtain t where t: "nat T = Suc t" by (cases "nat T") simp_all
  have a: "FS1_inner out N res cut_q k (nat T) w =
     Inl (case FS1Step out N k 0 of Inl e \<Rightarrow> e | Inr s \<Rightarrow>
          (case SA_lines out N cut_q k 0 of Inl e \<Rightarrow> e | Inr SA \<Rightarrow> NameError ''l''))" for k w
    unfolding t by (subst FS1_inner_first) (simp_all add: FS1_body_first)
  show ?thesis
  proof (induction m)
    case 0
    have "FS1_outer out N T res cut_q (Suc 0) v = FS1_inner out N res cut_q 0 (nat T) v"
      by simp
    then show ?case unfolding a .
  next
    case (Suc m)
    have "FS1_outer out N T res cut_q (Suc (Suc m)) v =
        (case FS1_outer out N T res cut_q (Suc m) v of
           Inl e \<Rightarrow> Inl e
         | Inr v' \<Rightarrow> FS1_inner out N res cut_q (Suc m) (nat T) v')"
      by (rule FS1_outer.simps(2))
    then show ?case unfolding Suc.IH by simp
  qed
qed

lemma int_div_exact_big: "int_div id 9223372036854775808 1 = Inr 9223372036854775808"
  by (simp add: int_div_def)

lemma np_zeros_big: "np_zeros m 9223372036854775808 = Inl ValueError"
  by (simp add: np_zeros_def)

lemma outside_Z3_simps:
  "float_of outside_Z3 = id" "mem_limit outside_Z3 = 1073741824"
  "FS1Step outside_Z3 N k i = Inr ()"
  "SA_lines outside_Z3 N cut_q k i = entropy_SA (stab_Z3 k i) cut_q"
  by (simp_all add: outside_Z3_def)

text \<open>
  C9, as the code has it. For \<open>N\<close>, \<open>T\<close>, \<open>rep\<close> and \<open>res\<close> at least 1 and any \<open>cut\<close>,
  \<open>runFS1\<close> never returns a result: it always raises. When the statements before line 44
  raise nothing (the size \<open>int(T/res)\<close> and the two arrays of lines 29 to 31 are made, the
  gate step and the entropy lines of timestep 0 return), the exception is the
  undefined-name error for \<open>l\<close>, at timestep \<open>i = 0\<close> of the first repetition.
\<close>

theorem runFS1_never_returns:
  assumes "1 \<le> N" "1 \<le> T" "1 \<le> rep" "1 \<le> res"
  shows "(\<exists>e. runFS1 out N T rep res cut_q = Inl e)
     \<and> (\<forall>T2 v SA. int_div (float_of out) T res = Inr T2
           \<and> np_zeros (mem_limit out) T2 = Inr v
           \<and> FS1Step out N 0 0 = Inr ()
           \<and> SA_lines out N cut_q 0 0 = Inr SA
         \<longrightarrow> runFS1 out N T rep res cut_q = Inl (NameError ''l''))"
proof -
  from assms(3) obtain m where m: "nat rep = Suc m" by (cases "nat rep") simp_all
  show ?thesis
    unfolding runFS1_def m FS1_outer_first [OF assms(2)]
    by (auto split: sum.splits)
qed


theorem runFS1_never_returns_witness:
  "(1::nat) \<le> 3 \<and> (1::int) \<le> 4 \<and> (1::int) \<le> 2
   \<and> runFS1 outside_Z3 3 4 2 2 1 = Inl (NameError ''l'')"
proof -
  have h: "int_div (float_of outside_Z3) 4 2 = Inr 2"
    "np_zeros (mem_limit outside_Z3) 2 = Inr (replicate 2 0)"
    "FS1Step outside_Z3 3 0 0 = Inr ()"
    by (simp_all add: outside_Z3_simps int_div_def np_zeros_def)
  have e: "entropy_SA [[0, 0, 0, 1, 0, 0], [0, 0, 0, 0, 1, 0], [0, 0, 0, 0, 0, 1]] 1 = Inr 0"
    by code_simp
  have s: "SA_lines outside_Z3 3 1 0 0 = Inr 0"
    by (simp add: outside_Z3_simps stab_Z3_def e)
  show ?thesis
    using runFS1_never_returns [where N = 3 and T = 4 and rep = 2 and res = 2 and out = outside_Z3
        and cut_q = 1] h s
    by simp
qed


text \<open>
  C9 as stated fails for a large \<open>T\<close>: at \<open>T = 2^63\<close> and \<open>res = 1\<close> the array of line 30
  cannot be made, \<open>np.zeros\<close> raises \<open>ValueError\<close>, and the undefined name is never read.
\<close>

theorem runFS1_allocation_first:
  "runFS1 outside_Z3 3 9223372036854775808 1 1 1 = Inl ValueError
   \<and> runFS1 outside_Z3 3 9223372036854775808 1 1 1 \<noteq> Inl (NameError ''l'')"
  by (simp add: runFS1_def outside_Z3_simps int_div_exact_big np_zeros_big)

subsection \<open>Step triggers\<close>

text \<open>
  C10. A step whose trigger is "always", "even" or "odd" does not validate at step index 0;
  a step validates at index 0 only if its trigger is "first", and a "first" step validates
  at no other index; an "always" step validates exactly at the indices greater than 0.
\<close>

theorem validate_triggers:
  "(step_when s \<in> {''always'', ''even'', ''odd''} \<longrightarrow> \<not> validate s 0)
   \<and> (validate s 0 \<longleftrightarrow> step_when s = ''first'')
   \<and> (step_when s = ''first'' \<longrightarrow> (validate s n \<longleftrightarrow> n = 0))
   \<and> (step_when s = ''always'' \<longrightarrow> (validate s n \<longleftrightarrow> n > 0))"
  by (auto simp: validate_def)

theorem validate_triggers_witness:
  "(step_when \<lparr>step_N = 3, step_when = ''even''\<rparr> \<in> {''always'', ''even'', ''odd''}
      \<and> \<not> validate \<lparr>step_N = 3, step_when = ''even''\<rparr> 0)
   \<and> validate \<lparr>step_N = 3, step_when = ''first''\<rparr> 0
   \<and> \<not> validate \<lparr>step_N = 3, step_when = ''first''\<rparr> 5
   \<and> validate \<lparr>step_N = 3, step_when = ''always''\<rparr> 5"
  using validate_triggers [of "\<lparr>step_N = 3, step_when = ''even''\<rparr>" 5]
    validate_triggers [of "\<lparr>step_N = 3, step_when = ''first''\<rparr>" 5]
    validate_triggers [of "\<lparr>step_N = 3, step_when = ''always''\<rparr>" 5]
  by simp

end
